theory Spec2Isabelle
  imports Complex_Main "HOL-Library.Multiset"
begin

section \<open>Data model of the gate module\<close>

text \<open>
  The exceptions the module (and the array library beneath it) can raise.  Python's
  IndexError is raised for two different reasons, which are kept apart: \<open>IndexError\<close> is
  the index out of bounds, \<open>NonIntegerIndexError\<close> is the IndexError of indexing with an
  array that is not of integer or Boolean type.  \<open>OverflowError\<close> is raised by converting
  an infinite float to an integer.
\<close>

datatype error = ValueError | AssertionError | IndexError | NonIntegerIndexError | OverflowError

text \<open>
  An N x D array of events: \<open>ncols\<close> is D, \<open>rows\<close> holds the N events.  The
  floating-point entries are modelled as real numbers, so rounding and overflow are left
  out; what IEEE arithmetic does on a division by zero or a logarithm of a non-positive
  number is written out where the code can reach it, and the target count of
  \<open>density2d\<close>, where rounding decides how many rows are kept, is also given in double
  precision (\<open>density2d_fp\<close>).
\<close>

record ndarray =
  ncols :: nat
  rows :: "real list list"

definition wf_data :: "ndarray \<Rightarrow> bool" where
  "wf_data data = list_all (\<lambda>r. length r = ncols data) (rows data)"

text \<open>
  What a gate returns with \<open>full_output\<close>: the gated rows and the mask.  Without
  \<open>full_output\<close> the caller gets the field \<open>gated_data\<close> alone.
\<close>

record 'm gate_output =
  gated_data :: "real list list"
  mask :: 'm

record ellipse_gate_output = "bool list gate_output" +
  contour :: "(real \<times> real) list list"

text \<open>Indexing by a Boolean mask, \<open>data[mask]\<close>: the rows whose flag is set, in order.\<close>

definition take_mask :: "'a list \<Rightarrow> bool list \<Rightarrow> 'a list" where
  "take_mask xs m = map fst (filter snd (zip xs m))"

text \<open>
  Column selection \<open>data[:,channels]\<close>: a channel beyond the last column raises
  IndexError, unless the array has no rows, where the result is empty.
\<close>

definition index_columns :: "ndarray \<Rightarrow> nat list \<Rightarrow> error + real list list" where
  "index_columns data channels =
     (if rows data = [] \<or> list_all (\<lambda>c. c < ncols data) channels
      then Inr (map (\<lambda>r. map (\<lambda>c. r ! c) channels) (rows data))
      else Inl IndexError)"

section \<open>start_end\<close>

text \<open>
  The bound of a Python slice on a sequence of length \<open>n\<close>: a negative bound counts from
  the end, and every bound is clipped to \<open>0..n\<close>.
\<close>

definition slice_bound :: "int \<Rightarrow> nat \<Rightarrow> nat" where
  "slice_bound k n = (if k < 0 then nat (max (k + int n) 0) else min (nat k) n)"

text \<open>The slice assignment \<open>xs[lo:hi] = v\<close> with normalised bounds.\<close>

definition assign_slice :: "'a list \<Rightarrow> nat \<Rightarrow> nat \<Rightarrow> 'a \<Rightarrow> 'a list" where
  "assign_slice xs lo hi v = map (\<lambda>i. if lo \<le> i \<and> i < hi then v else xs ! i) [0..<length xs]"

definition start_end :: "ndarray \<Rightarrow> int \<Rightarrow> int \<Rightarrow> error + bool list gate_output" where
  "start_end data num_start num_end =
     (let n = length (rows data) in
      if int n < num_start + num_end then Inl ValueError
      else
        let mask0 = replicate n True;
            mask1 = assign_slice mask0 0 (slice_bound num_start n) False;
            mask2 = assign_slice mask1 (slice_bound (- num_end) n) n False
        in Inr \<lparr>gated_data = take_mask (rows data) mask2, mask = mask2\<rparr>)"

section \<open>high_low\<close>

text \<open>
  The bounds \<open>high\<close> and \<open>low\<close> of a plain array: \<open>None\<close> stands for the defaults
  \<open>np.Inf\<close> and \<open>-np.Inf\<close>, which every finite value satisfies.  (The defaults read from
  the metadata of an FCSData object are outside this model.)
\<close>

definition below_high :: "real option \<Rightarrow> real \<Rightarrow> bool" where
  "below_high high v = (case high of None \<Rightarrow> True | Some h \<Rightarrow> v < h)"

definition above_low :: "real option \<Rightarrow> real \<Rightarrow> bool" where
  "above_low low v = (case low of None \<Rightarrow> True | Some l \<Rightarrow> l < v)"

definition high_low ::
  "ndarray \<Rightarrow> nat list option \<Rightarrow> real option \<Rightarrow> real option \<Rightarrow> error + bool list gate_output" where
  "high_low data channels high low =
     (case (case channels of None \<Rightarrow> Inr (rows data) | Some cs \<Rightarrow> index_columns data cs) of
        Inl e \<Rightarrow> Inl e
      | Inr data_ch \<Rightarrow>
          let m = map (list_all (\<lambda>v. below_high high v \<and> above_low low v)) data_ch
          in Inr \<lparr>gated_data = take_mask (rows data) m, mask = m\<rparr>)"

section \<open>ellipse\<close>

text \<open>
  \<open>np.log10\<close> of a non-positive number is \<open>nan\<close> or \<open>-inf\<close> (with a warning, not an
  exception); \<open>None\<close> stands for both.
\<close>

definition np_log10 :: "real \<Rightarrow> real option" where
  "np_log10 x = (if 0 < x then Some (log 10 x) else None)"

text \<open>The matrix \<open>R\<close> of the source, as its two rows.\<close>

definition rotation :: "real \<Rightarrow> (real \<times> real) \<times> (real \<times> real)" where
  "rotation theta = ((cos theta, sin theta), (- sin theta, cos theta))"

text \<open>
  The membership test for one event \<open>(x, y)\<close> of the two gated channels: the optional
  logarithm, the centring, the product with the transpose of \<open>R\<close>, and the comparison.
  A coordinate that is not finite after the logarithm stays not finite through the
  centring and the rotation, and a zero axis makes the quotient \<open>nan\<close> or infinite; in
  both cases the comparison \<open><= 1\<close> is False.
\<close>

definition inside_ellipse ::
  "real \<times> real \<Rightarrow> real \<Rightarrow> real \<Rightarrow> real \<Rightarrow> bool \<Rightarrow> real \<times> real \<Rightarrow> bool" where
  "inside_ellipse center a b theta lg p =
     (case (if lg then (np_log10 (fst p), np_log10 (snd p)) else (Some (fst p), Some (snd p))) of
        (Some u, Some v) \<Rightarrow>
          let xc = u - fst center;
              yc = v - snd center;
              R = rotation theta;
              xr = xc * fst (fst R) + yc * snd (fst R);
              yr = xc * fst (snd R) + yc * snd (snd R)
          in a \<noteq> 0 \<and> b \<noteq> 0 \<and> (xr / a)\<^sup>2 + (yr / b)\<^sup>2 \<le> 1
      | _ \<Rightarrow> False)"

text \<open>\<open>np.linspace(start, stop, num)\<close>: \<open>num\<close> samples, both end points included.\<close>

definition linspace :: "real \<Rightarrow> real \<Rightarrow> nat \<Rightarrow> real list" where
  "linspace start stop num =
     map (\<lambda>k. start + real k * ((stop - start) / real (num - 1))) [0..<num]"

definition ellipse_angles :: "real list" where
  "ellipse_angles = map (\<lambda>u. u * 2 * pi) (linspace 0 1 100)"

definition ellipse_contour ::
  "real \<times> real \<Rightarrow> real \<Rightarrow> real \<Rightarrow> real \<Rightarrow> bool \<Rightarrow> (real \<times> real) list" where
  "ellipse_contour center a b theta lg =
     (let R = rotation theta;
          ci = map (\<lambda>t. (a * cos t, b * sin t)) ellipse_angles;
          ci' = map (\<lambda>(px, py). (px * fst (fst R) + py * fst (snd R) + fst center,
                                  px * snd (fst R) + py * snd (snd R) + snd center)) ci
      in if lg then map (\<lambda>(x, y). (10 powr x, 10 powr y)) ci' else ci')"

definition ellipse ::
  "ndarray \<Rightarrow> nat list \<Rightarrow> real \<times> real \<Rightarrow> real \<Rightarrow> real \<Rightarrow> real \<Rightarrow> bool \<Rightarrow>
   error + ellipse_gate_output" where
  "ellipse data channels center a b theta lg =
     (if length channels \<noteq> 2 then Inl AssertionError
      else case index_columns data channels of
        Inl e \<Rightarrow> Inl e
      | Inr data_ch \<Rightarrow>
          let m = map (\<lambda>r. inside_ellipse center a b theta lg (r ! 0, r ! 1)) data_ch
          in Inr \<lparr>gated_data = take_mask (rows data) m, mask = m,
                  contour = [ellipse_contour center a b theta lg]\<rparr>)"

section \<open>density2d\<close>

subsection \<open>The array library underneath\<close>

text \<open>
  A floating-point quotient: dividing by zero gives \<open>nan\<close> or an infinity (with a
  warning, not an exception).
\<close>

datatype npfloat = Fin real | PInf | NInf | NaN

definition np_divide :: "real \<Rightarrow> real \<Rightarrow> npfloat" where
  "np_divide x y =
     (if y \<noteq> 0 then Fin (x / y) else if x = 0 then NaN else if 0 < x then PInf else NInf)"

text \<open>The order in which a sort arranges floating-point values: \<open>nan\<close> comes last.\<close>

fun np_le :: "npfloat \<Rightarrow> npfloat \<Rightarrow> bool" where
  "np_le _ NaN = True"
| "np_le NaN _ = False"
| "np_le NInf _ = True"
| "np_le _ NInf = False"
| "np_le _ PInf = True"
| "np_le PInf _ = False"
| "np_le (Fin x) (Fin y) = (x \<le> y)"

text \<open>
  \<open>np.argsort\<close> is a parameter of the gate: the order it gives to equal values is
  not fixed by the library.  What the library does promise: the result is a permutation
  of the positions, and the values read in that order are ascending.
\<close>

definition argsort_ok :: "(npfloat list \<Rightarrow> nat list) \<Rightarrow> bool" where
  "argsort_ok argsort =
     (\<forall>v. mset (argsort v) = mset [0..<length v] \<and>
          sorted_wrt (\<lambda>i j. np_le (v ! i) (v ! j)) (argsort v))"

text \<open>One such function, an insertion sort of the positions, stable on equal values.\<close>

fun insert_by :: "npfloat list \<Rightarrow> nat \<Rightarrow> nat list \<Rightarrow> nat list" where
  "insert_by v i [] = [i]"
| "insert_by v i (j # js) =
     (if np_le (v ! i) (v ! j) then i # j # js else j # insert_by v i js)"

definition argsort_stable :: "npfloat list \<Rightarrow> nat list" where
  "argsort_stable v = foldr (insert_by v) [0..<length v] []"

text \<open>
  \<open>np.histogram2d\<close> with explicit bin edges on both axes, by its contract: edges that
  decrease somewhere are refused with ValueError, cell \<open>(i, j)\<close> counts the points with
  both coordinates in the half-open intervals of bins \<open>i\<close> and \<open>j\<close>, and the last bin
  of each axis also holds its right edge.  Well-formed edges, \<open>edges_ok\<close>, are at least
  two and strictly increasing, as the bins of a histogram are.
\<close>

definition edges_ok :: "real list \<Rightarrow> bool" where
  "edges_ok e = (2 \<le> length e \<and> sorted_wrt (<) e)"

definition in_bin :: "real list \<Rightarrow> nat \<Rightarrow> real \<Rightarrow> bool" where
  "in_bin e i x = (e ! i \<le> x \<and> (x < e ! (i + 1) \<or> (i + 2 = length e \<and> x = e ! (i + 1))))"

definition histogram2d ::
  "real list \<Rightarrow> real list \<Rightarrow> real list \<Rightarrow> real list \<Rightarrow> error + nat list list" where
  "histogram2d xs ys xe ye =
     (if xe \<noteq> [] \<and> sorted xe \<and> ye \<noteq> [] \<and> sorted ye
      then Inr (map (\<lambda>i. map (\<lambda>j. length (filter (\<lambda>(x, y). in_bin xe i x \<and> in_bin ye j y)
                                                (zip xs ys)))
                            [0..<length ye - 1])
                    [0..<length xe - 1])
      else Inl ValueError)"

text \<open>
  \<open>np.digitize(x, bins)\<close> on increasing bins: the \<open>i\<close> with
  \<open>bins[i-1] <= x < bins[i]\<close>, 0 below the first edge and \<open>len(bins)\<close> from the last
  edge on.
\<close>

fun digitize :: "real \<Rightarrow> real list \<Rightarrow> nat" where
  "digitize x [] = 0"
| "digitize x (e # es) = (if x < e then 0 else Suc (digitize x es))"

text \<open>
  Modelled from the spec: the Gaussian smoothing of the count grid, which the source takes
  from \<open>scipy.ndimage\<close>: a convolution with a truncated discrete Gaussian kernel of
  radius about \<open>6 * sigma\<close>, normalised to sum 1, on a grid bordered by zeros, along the
  first axis and then along the second.
\<close>

definition gaussian_weights :: "real \<Rightarrow> real list" where
  "gaussian_weights sigma =
     (let lw = nat \<lfloor>6 * sigma + 1 / 2\<rfloor>;
          raw = map (\<lambda>k. exp (- (1 / 2) * (real_of_int (int k - int lw))\<^sup>2 / sigma\<^sup>2))
                    [0..<2 * lw + 1]
      in map (\<lambda>w. w / sum_list raw) raw)"

definition grid_at :: "real list list \<Rightarrow> int \<Rightarrow> int \<Rightarrow> real" where
  "grid_at M i j =
     (if 0 \<le> i \<and> i < int (length M) \<and> 0 \<le> j \<and> j < int (length (M ! nat i))
      then M ! nat i ! nat j else 0)"

definition gaussian_filter :: "real \<Rightarrow> real list list \<Rightarrow> real list list" where
  "gaussian_filter sigma M =
     (let w = gaussian_weights sigma;
          lw = int (length w div 2);
          A = map (\<lambda>i. map (\<lambda>j. \<Sum>k\<leftarrow>[0..<length w]. w ! k * grid_at M (int i + int k - lw) (int j))
                            [0..<length (M ! i)])
                  [0..<length M]
      in map (\<lambda>i. map (\<lambda>j. \<Sum>k\<leftarrow>[0..<length w]. w ! k * grid_at A (int i) (int j + int k - lw))
                        [0..<length (M ! i)])
             [0..<length M])"

text \<open>The smoothing is a parameter of the gate; all the gate needs is that it keeps the shape.\<close>

definition keeps_shape :: "(real list list \<Rightarrow> real list list) \<Rightarrow> bool" where
  "keeps_shape gf = (\<forall>M. map length (gf M) = map length M)"

subsection \<open>The gate\<close>

text \<open>
  The bin of a coordinate on one axis: \<open>np.digitize(...) - 1\<close>, then the coordinates equal
  to the last edge are moved into the last bin.
\<close>

definition bin_index :: "real list \<Rightarrow> real \<Rightarrow> int" where
  "bin_index e x = (if x = last e then int (length e) - 2 else int (digitize x e) - 1)"

text \<open>
  The loop that fills the grid of index lists \<open>Hi\<close> and counts the events it keeps:
  one step per event \<open>(i, (xi, yi))\<close>, with the outlier bins \<open>(-1, len(edges) - 1)\<close> of the
  two axes.
\<close>

definition accumulate_event ::
  "int \<Rightarrow> int \<Rightarrow> nat \<times> int \<times> int \<Rightarrow> nat list list list \<times> nat \<Rightarrow> nat list list list \<times> nat" where
  "accumulate_event ox oy ev st =
     (case ev of (i, xi, yi) \<Rightarrow> case st of (Hi, N) \<Rightarrow>
        if xi \<notin> {- 1, ox} \<and> yi \<notin> {- 1, oy}
        then (Hi[nat xi := (Hi ! nat xi)[nat yi := Hi ! nat xi ! nat yi @ [i]]], N + 1)
        else (Hi, N))"

definition bin_events ::
  "real list \<Rightarrow> real list \<Rightarrow> real list \<Rightarrow> real list \<Rightarrow> nat list list list \<times> nat" where
  "bin_events xe ye xs ys =
     (let ix = map (bin_index xe) xs;
          iy = map (bin_index ye) ys;
          Hi0 = replicate (length xe - 1) (replicate (length ye - 1) [])
      in fold (accumulate_event (int (length xe) - 1) (int (length ye) - 1))
              (zip [0..<length xs] (zip ix iy)) (Hi0, 0))"

text \<open>The normalisation \<open>D = sH / np.sum(sH)\<close>.\<close>

definition density_field :: "real list list \<Rightarrow> npfloat list list" where
  "density_field sH = map (map (\<lambda>v. np_divide v (sum_list (concat sH)))) sH"

text \<open>The bins in the order of \<open>sidx\<close>: by density, descending.\<close>

definition density_order ::
  "(real list list \<Rightarrow> real list list) \<Rightarrow> (npfloat list \<Rightarrow> nat list) \<Rightarrow> nat list list \<Rightarrow> nat list" where
  "density_order gf argsort H = rev (argsort (concat (density_field (gf (map (map real) H)))))"

definition cumsum :: "nat list \<Rightarrow> nat list" where
  "cumsum xs = map (\<lambda>k. sum_list (take (Suc k) xs)) [0..<length xs]"

text \<open>\<open>np.nonzero(csvH >= n)[0][0]\<close>: the first position that reaches \<open>n\<close>, if any.\<close>

definition first_reaching :: "nat list \<Rightarrow> int \<Rightarrow> error + nat" where
  "first_reaching cs n =
     (case filter (\<lambda>k. n \<le> int (cs ! k)) [0..<length cs] of
        [] \<Rightarrow> Inl IndexError
      | k # _ \<Rightarrow> Inr k)"

text \<open>
  The selection of lines 290-304: the raw counts in the order \<open>sidx\<close>, their running
  sums, the first rank \<open>Nidx\<close> whose running sum reaches \<open>n\<close>, and the events of
  the bins \<open>sidx[:(Nidx+1)]\<close>, flattened and sorted.
\<close>

definition select_events ::
  "nat list list \<Rightarrow> nat list list list \<Rightarrow> nat list \<Rightarrow> int \<Rightarrow> error + nat list" where
  "select_events H Hi sidx n =
     (let vH = concat H;
          svH = map (\<lambda>i. vH ! i) sidx;
          csvH = cumsum svH
      in case first_reaching csvH n of
        Inl e \<Rightarrow> Inl e
      | Inr Nidx \<Rightarrow>
          let vHi = concat Hi
          in Inr (sort (concat (map (\<lambda>i. vHi ! i) (take (Nidx + 1) sidx)))))"

text \<open>
  \<open>data[mask]\<close> with the array of selected events.  An empty list of events makes an
  array of floats, and indexing the data with it raises the IndexError of a non-integer
  index array.
\<close>

definition index_rows :: "ndarray \<Rightarrow> nat list \<Rightarrow> error + real list list" where
  "index_rows data m =
     (if m = [] then Inl NonIntegerIndexError else Inr (map (\<lambda>i. rows data ! i) m))"

text \<open>
  The gate itself, up to the mask and the gated data.  The bins are given as the two
  lists of edges; the contours of \<open>full_output\<close>, traced by the plotting library, are
  not modelled.
\<close>

definition density2d ::
  "(real list list \<Rightarrow> real list list) \<Rightarrow> (npfloat list \<Rightarrow> nat list) \<Rightarrow>
   ndarray \<Rightarrow> nat list \<Rightarrow> real list \<Rightarrow> real list \<Rightarrow> real \<Rightarrow> error + nat list gate_output" where
  "density2d gf argsort data channels xe ye gate_fraction =
     (if length channels \<noteq> 2 then Inl AssertionError
      else case index_columns data channels of
        Inl e \<Rightarrow> Inl e
      | Inr data_ch \<Rightarrow>
          if \<not> 1 < length data_ch then Inl AssertionError
          else
            let xs = map (\<lambda>r. r ! 0) data_ch;
                ys = map (\<lambda>r. r ! 1) data_ch
            in case histogram2d xs ys xe ye of
              Inl e \<Rightarrow> Inl e
            | Inr H \<Rightarrow>
                let Hi = fst (bin_events xe ye xs ys);
                    N = snd (bin_events xe ye xs ys);
                    n = \<lceil>gate_fraction * real N\<rceil>;
                    sidx = density_order gf argsort H
                in case select_events H Hi sidx n of
                  Inl e \<Rightarrow> Inl e
                | Inr m \<Rightarrow>
                    (case index_rows data m of
                       Inl e \<Rightarrow> Inl e
                     | Inr gated \<Rightarrow> Inr \<lparr>gated_data = gated, mask = m\<rparr>))"

subsection \<open>The target count in double precision\<close>

text \<open>
  Line 275 computes the target in double precision, and the rounding of the product can
  change its ceiling.  \<open>float_round\<close> rounds a real number to the nearest double, ties to
  the even significand: 53 significant bits, the unit in the last place read off the
  binary exponent, which is not taken below -1022 (the subnormal numbers) and has no upper
  limit here (the overflow is tested where the result is used).
\<close>

definition round_half_even :: "real \<Rightarrow> int" where
  "round_half_even r =
     (let q = \<lfloor>r\<rfloor>; d = r - of_int q
      in if d < 1 / 2 then q else if 1 / 2 < d then q + 1 else if even q then q else q + 1)"

definition float_ulp :: "real \<Rightarrow> real" where
  "float_ulp x = 2 powr (of_int (max \<lfloor>log 2 \<bar>x\<bar>\<rfloor> (- 1022)) - 52)"

definition float_round :: "real \<Rightarrow> real" where
  "float_round x =
     (if x = 0 then 0
      else sgn x * of_int (round_half_even (\<bar>x\<bar> / float_ulp x)) * float_ulp x)"

text \<open>
  \<open>int(np.ceil(gate_fraction*float(N)))\<close> for a \<open>gate_fraction\<close> that is a double:
  the conversion of \<open>N\<close>, the rounded product and its ceiling.  A value beyond the
  largest double is infinite, and its conversion to an integer raises OverflowError.
\<close>

definition np_target :: "real \<Rightarrow> nat \<Rightarrow> error + int" where
  "np_target gate_fraction N =
     (let Nf = float_round (real N);
          p = float_round (gate_fraction * Nf)
      in if 2 ^ 1024 \<le> \<bar>Nf\<bar> \<or> 2 ^ 1024 \<le> \<bar>p\<bar> then Inl OverflowError else Inr \<lceil>p\<rceil>)"

text \<open>
  The gate with the target count of line 275 computed in double precision; everything
  else is as in \<open>density2d\<close>, which takes the ceiling of the exact product.
\<close>

definition density2d_fp ::
  "(real list list \<Rightarrow> real list list) \<Rightarrow> (npfloat list \<Rightarrow> nat list) \<Rightarrow>
   ndarray \<Rightarrow> nat list \<Rightarrow> real list \<Rightarrow> real list \<Rightarrow> real \<Rightarrow> error + nat list gate_output" where
  "density2d_fp gf argsort data channels xe ye gate_fraction =
     (if length channels \<noteq> 2 then Inl AssertionError
      else case index_columns data channels of
        Inl e \<Rightarrow> Inl e
      | Inr data_ch \<Rightarrow>
          if \<not> 1 < length data_ch then Inl AssertionError
          else
            let xs = map (\<lambda>r. r ! 0) data_ch;
                ys = map (\<lambda>r. r ! 1) data_ch
            in case histogram2d xs ys xe ye of
              Inl e \<Rightarrow> Inl e
            | Inr H \<Rightarrow>
                let Hi = fst (bin_events xe ye xs ys);
                    N = snd (bin_events xe ye xs ys)
                in case np_target gate_fraction N of
                  Inl e \<Rightarrow> Inl e
                | Inr n \<Rightarrow>
                    let sidx = density_order gf argsort H
                    in case select_events H Hi sidx n of
                      Inl e \<Rightarrow> Inl e
                    | Inr m \<Rightarrow>
                        (case index_rows data m of
                           Inl e \<Rightarrow> Inl e
                         | Inr gated \<Rightarrow> Inr \<lparr>gated_data = gated, mask = m\<rparr>))"

text \<open>The number of rows a call of the gate retains, when it returns.\<close>

definition retained_count :: "error + nat list gate_output \<Rightarrow> error + nat" where
  "retained_count r = (case r of Inl e \<Rightarrow> Inl e | Inr out \<Rightarrow> Inr (length (mask out)))"

subsection \<open>The result of the binning loop in closed form\<close>

text \<open>
  Used to state what the loop computes: cell \<open>(a, b)\<close> of the index grid after \<open>k\<close>
  events holds, in order, the events among the first \<open>k\<close> whose bins are \<open>a\<close> and \<open>b\<close>;
  an event is counted when both its bins lie on the grid.
\<close>

definition index_grid :: "nat \<Rightarrow> nat \<Rightarrow> int list \<Rightarrow> int list \<Rightarrow> nat \<Rightarrow> nat list list list" where
  "index_grid nx ny ix iy k =
     map (\<lambda>a. map (\<lambda>b. filter (\<lambda>i. ix ! i = int a \<and> iy ! i = int b) [0..<k]) [0..<ny]) [0..<nx]"

definition in_grid :: "nat \<Rightarrow> nat \<Rightarrow> int \<Rightarrow> int \<Rightarrow> bool" where
  "in_grid nx ny xi yi = (0 \<le> xi \<and> xi < int nx \<and> 0 \<le> yi \<and> yi < int ny)"

subsection \<open>Notions used to state the properties of the gate\<close>

text \<open>Column \<open>c\<close> of the data, \<open>data[:,c]\<close>.\<close>

definition column :: "ndarray \<Rightarrow> nat \<Rightarrow> real list" where
  "column data c = map (\<lambda>r. r ! c) (rows data)"

text \<open>A grid of zeros: a histogram without mass.\<close>

definition all_zero :: "real list list \<Rightarrow> bool" where
  "all_zero M = (\<forall>r\<in>set M. \<forall>v\<in>set r. v = 0)"

section \<open>The specification's wording, for comparison\<close>

text \<open>
  The contour as the specification words it: 100 angles equally spaced over the half-open
  interval from 0 to \<open>2 * pi\<close>.
\<close>

definition spec_ellipse_angles :: "real list" where
  "spec_ellipse_angles = map (\<lambda>k. 2 * pi * real k / 100) [0..<100]"

section \<open>Properties of start_end\<close>

lemma take_mask_all_False: "take_mask xs (replicate n False) = []"
  unfolding take_mask_def
  by (induction xs arbitrary: n) (auto simp: filter_empty_conv dest!: set_zip_rightD)

lemma assign_slice_whole: "assign_slice xs 0 (length xs) v = replicate (length xs) v"
  unfolding assign_slice_def by (rule nth_equalityI) simp_all

lemma length_assign_slice: "length (assign_slice xs lo hi v) = length xs"
  unfolding assign_slice_def by simp

text \<open>
  C10. With \<open>num_end = 0\<close> and \<open>num_start\<close> at most the number of rows, \<open>start_end\<close>
  discards every event: the slice \<open>mask[-0:]\<close> is \<open>mask[0:]\<close>, the whole array, so the
  mask is all False and no row is kept.
\<close>

theorem start_end_num_end_zero:
  assumes "num_start \<le> int (length (rows data))"
  shows "start_end data num_start 0 =
           Inr \<lparr>gated_data = [], mask = replicate (length (rows data)) False\<rparr>"
proof -
  let ?n = "length (rows data)"
  let ?m1 = "assign_slice (replicate ?n True) 0 (slice_bound num_start ?n) False"
  have len: "length ?m1 = ?n" by (simp add: length_assign_slice)
  have "assign_slice ?m1 (slice_bound (- 0) ?n) ?n False = replicate ?n False"
    using assign_slice_whole [of ?m1 False] len by (simp add: slice_bound_def)
  then show ?thesis
    using assms by (simp add: start_end_def Let_def take_mask_all_False)
qed

theorem start_end_num_end_zero_witness:
  "(2::int) \<le> int (length (rows \<lparr>ncols = 1, rows = [[1], [2], [3], [4], [5]]\<rparr>)) \<and>
   start_end \<lparr>ncols = 1, rows = [[1], [2], [3], [4], [5]]\<rparr> 2 0 =
     Inr \<lparr>gated_data = [], mask = [False, False, False, False, False]\<rparr>"
  using start_end_num_end_zero [of 2 "\<lparr>ncols = 1, rows = [[1], [2], [3], [4], [5]]\<rparr>"]
  by (simp add: numeral_eq_Suc)

section \<open>Properties of ellipse\<close>

lemma length_ellipse_angles: "length ellipse_angles = 100"
  by (simp add: ellipse_angles_def linspace_def)

lemma nth_ellipse_angles: "k < 100 \<Longrightarrow> ellipse_angles ! k = 2 * pi * real k / 99"
  by (simp add: ellipse_angles_def linspace_def)

lemma length_ellipse_contour: "length (ellipse_contour center a b theta lg) = 100"
  by (simp add: ellipse_contour_def Let_def length_ellipse_angles)

lemma nth_ellipse_contour:
  assumes "k < 100"
  shows "ellipse_contour (cx, cy) a b theta lg ! k =
     (let t = 2 * pi * real k / 99;
          x = a * cos t * cos theta - b * sin t * sin theta + cx;
          y = a * cos t * sin theta + b * sin t * cos theta + cy
      in if lg then (10 powr x, 10 powr y) else (x, y))"
  using assms
  by (simp add: ellipse_contour_def Let_def length_ellipse_angles nth_ellipse_angles rotation_def)

text \<open>
  C7 (as amended).  With \<open>full_output\<close> the ellipse gate returns one contour of 100
  points.  Point \<open>k\<close> is the ellipse point at the angle \<open>2 * pi * k / 99\<close>, rotated by
  \<open>+theta\<close>, translated by the center, and raised as a power of 10 in log mode: the
  angles are equally spaced over the closed interval from 0 to \<open>2 * pi\<close>, both ends
  included, so that the last point closes the curve on the first.
\<close>

theorem ellipse_contour_closed_interval:
  assumes "length channels = 2" and "list_all (\<lambda>c. c < ncols data) channels" and "k < 100"
  shows "\<exists>out c. ellipse data channels (cx, cy) a b theta lg = Inr out \<and> contour out = [c] \<and>
           length c = 100 \<and>
           c ! k =
             (let t = 2 * pi * real k / 99;
                  x = a * cos t * cos theta - b * sin t * sin theta + cx;
                  y = a * cos t * sin theta + b * sin t * cos theta + cy
              in if lg then (10 powr x, 10 powr y) else (x, y))"
  using assms nth_ellipse_contour [OF assms(3), of cx cy a b theta lg]
  by (simp add: ellipse_def index_columns_def Let_def length_ellipse_contour)

theorem ellipse_contour_closed_interval_witness:
  "length [0::nat, 1] = 2 \<and> list_all (\<lambda>c. c < ncols \<lparr>ncols = 2, rows = [[3, 4]]\<rparr>) [0, 1] \<and>
   (99::nat) < 100 \<and>
   (\<exists>out c. ellipse \<lparr>ncols = 2, rows = [[3, 4]]\<rparr> [0, 1] (0, 0) 1 1 0 False = Inr out \<and>
      contour out = [c] \<and> length c = 100 \<and> c ! 99 = (1, 0))"
  using ellipse_contour_closed_interval
          [of "[0, 1]" "\<lparr>ncols = 2, rows = [[3, 4]]\<rparr>" 99 0 0 1 1 0 False]
  by simp

text \<open>
  C7 as stated fails: the last sampled angle is \<open>2 * pi\<close> itself, which the half-open
  interval excludes; the step is \<open>2 * pi / 99\<close>, not \<open>2 * pi / 100\<close>; and the last
  contour point repeats the first.
\<close>

theorem ellipse_contour_half_open_counterexample:
  "ellipse_angles ! 99 = 2 * pi \<and> \<not> ellipse_angles ! 99 < 2 * pi \<and>
   ellipse_angles ! 1 \<noteq> spec_ellipse_angles ! 1 \<and>
   ellipse_contour (0, 0) 1 1 0 False ! 99 = ellipse_contour (0, 0) 1 1 0 False ! 0"
  by (simp add: nth_ellipse_angles nth_ellipse_contour spec_ellipse_angles_def)

lemma ellipse_mask_nth:
  assumes "c0 < ncols data" "c1 < ncols data" "i < length (rows data)"
  shows "\<exists>out. ellipse data [c0, c1] center a b theta lg = Inr out \<and>
           length (mask out) = length (rows data) \<and>
           mask out ! i = inside_ellipse center a b theta lg (rows data ! i ! c0, rows data ! i ! c1)"
  using assms by (simp add: ellipse_def index_columns_def Let_def)

text \<open>
  C8.  With \<open>theta = 0\<close> and no logarithm, an event at \<open>(center_x + a, center_y)\<close> in the
  gated channels lies exactly on the boundary and is kept, the comparison being
  \<open>\<le>\<close>; an event at \<open>(center_x + a * 1.001, center_y)\<close> is gated out.  The axes
  are non-zero, as the gate's contract requires.
\<close>

theorem ellipse_boundary_inclusive:
  assumes "a \<noteq> 0" and "b \<noteq> 0" and "c0 < ncols data" and "c1 < ncols data"
    and "i < length (rows data)"
  shows "\<exists>out. ellipse data [c0, c1] (cx, cy) a b 0 False = Inr out \<and>
           length (mask out) = length (rows data) \<and>
           (rows data ! i ! c0 = cx + a \<and> rows data ! i ! c1 = cy \<longrightarrow> mask out ! i) \<and>
           (rows data ! i ! c0 = cx + a * 1.001 \<and> rows data ! i ! c1 = cy \<longrightarrow> \<not> mask out ! i)"
proof -
  have on: "inside_ellipse (cx, cy) a b 0 False (cx + a, cy)"
    using assms(1,2) by (simp add: inside_ellipse_def rotation_def Let_def)
  have "((a * 1.001) / a)\<^sup>2 = (1.001::real)\<^sup>2" using assms(1) by simp
  then have "\<not> ((a * 1.001) / a)\<^sup>2 \<le> 1" by (simp add: power2_eq_square)
  then have off: "\<not> inside_ellipse (cx, cy) a b 0 False (cx + a * 1.001, cy)"
    by (simp add: inside_ellipse_def rotation_def Let_def)
  from ellipse_mask_nth [OF assms(3,4,5), of "(cx, cy)" a b 0 False]
  show ?thesis using on off by auto
qed

theorem ellipse_boundary_inclusive_witness:
  "(2::real) \<noteq> 0 \<and> (1::real) \<noteq> 0 \<and> (0::nat) < ncols \<lparr>ncols = 2, rows = [[5, 7], [5.002, 7]]\<rparr> \<and>
   (1::nat) < ncols \<lparr>ncols = 2, rows = [[5, 7], [5.002, 7]]\<rparr> \<and>
   ellipse \<lparr>ncols = 2, rows = [[5, 7], [5.002, 7]]\<rparr> [0, 1] (3, 7) 2 1 0 False =
     Inr \<lparr>gated_data = [[5, 7]], mask = [True, False],
          contour = [ellipse_contour (3, 7) 2 1 0 False]\<rparr>"
  using ellipse_boundary_inclusive [of 2 1 0 "\<lparr>ncols = 2, rows = [[5, 7], [5.002, 7]]\<rparr>" 1 0 3 7]
    ellipse_boundary_inclusive [of 2 1 0 "\<lparr>ncols = 2, rows = [[5, 7], [5.002, 7]]\<rparr>" 1 1 3 7]
  by (auto simp: ellipse_def index_columns_def Let_def take_mask_def)

section \<open>Properties of the binning step of density2d\<close>

lemma digitize_le_length: "digitize x e \<le> length e"
  by (induction e) auto

lemma digitize_gt_iff:
  "sorted_wrt (<) e \<Longrightarrow> i < length e \<Longrightarrow> (i < digitize x e) = (e ! i \<le> x)"
proof (induction e arbitrary: i)
  case Nil
  then show ?case by simp
next
  case (Cons a e)
  show ?case
  proof (cases i)
    case 0
    then show ?thesis by auto
  next
    case (Suc k)
    with Cons.prems have k: "k < length e" and lt: "a < e ! k" by auto
    from Cons.prems have "sorted_wrt (<) e" by simp
    from Cons.IH [OF this k] lt Suc show ?thesis by auto
  qed
qed

lemma edges_ok_last: "edges_ok e \<Longrightarrow> last e = e ! (length e - 1)"
proof -
  assume "edges_ok e"
  then have "e \<noteq> []" by (auto simp: edges_ok_def)
  then show ?thesis by (rule last_conv_nth)
qed

lemma edges_ok_nth_less: "edges_ok e \<Longrightarrow> i < j \<Longrightarrow> j < length e \<Longrightarrow> e ! i < e ! j"
  by (auto simp: edges_ok_def sorted_wrt_iff_nth_less)

lemma bin_index_eq_iff:
  assumes ok: "edges_ok e" and a: "a + 1 < length e"
  shows "(bin_index e x = int a) = in_bin e a x"
proof (cases "x = last e")
  case True
  have la: "last e = e ! (length e - 1)" using ok by (rule edges_ok_last)
  show ?thesis
  proof (cases "a + 2 = length e")
    case t: True
    then have "e ! a < e ! (a + 1)" using edges_ok_nth_less [OF ok, of a "a + 1"] by simp
    moreover have "length e - 1 = a + 1" using t by simp
    ultimately show ?thesis using True la t by (auto simp: bin_index_def in_bin_def)
  next
    case f: False
    then have "a + 1 < length e - 1" using a by simp
    then have "e ! (a + 1) < e ! (length e - 1)"
      using edges_ok_nth_less [OF ok, of "a + 1" "length e - 1"] by simp
    then show ?thesis using True la f by (auto simp: bin_index_def in_bin_def)
  qed
next
  case False
  have s: "sorted_wrt (<) e" using ok by (simp add: edges_ok_def)
  have 1: "(a < digitize x e) = (e ! a \<le> x)" using digitize_gt_iff [OF s, of a x] a by simp
  have 2: "(a + 1 < digitize x e) = (e ! (a + 1) \<le> x)" using digitize_gt_iff [OF s a, of x] .
  have la: "last e = e ! (length e - 1)" using ok by (rule edges_ok_last)
  have "(bin_index e x = int a) = (digitize x e = a + 1)"
    using False by (auto simp: bin_index_def)
  also have "\<dots> = (a < digitize x e \<and> \<not> a + 1 < digitize x e)" by auto
  also have "\<dots> = (e ! a \<le> x \<and> x < e ! (a + 1))" using 1 2 by auto
  also have "\<dots> = in_bin e a x"
  proof (cases "a + 2 = length e")
    case True
    then have "length e - 1 = a + 1" by simp
    then show ?thesis using False la by (auto simp: in_bin_def)
  next
    case False
    then show ?thesis by (auto simp: in_bin_def)
  qed
  finally show ?thesis .
qed

lemma bin_index_bounds:
  assumes "e \<noteq> []"
  shows "- 1 \<le> bin_index e x \<and> bin_index e x \<le> int (length e) - 1"
  using assms digitize_le_length [of x e]
  by (cases e) (auto simp: bin_index_def)

lemma index_grid_0: "index_grid nx ny ix iy 0 = replicate nx (replicate ny [])"
  by (simp add: index_grid_def map_replicate_const)

lemma index_grid_Suc_in:
  assumes x: "ix ! k = int a" and y: "iy ! k = int b" and a: "a < nx" and b: "b < ny"
  shows "(index_grid nx ny ix iy k)
           [a := (index_grid nx ny ix iy k ! a)[b := index_grid nx ny ix iy k ! a ! b @ [k]]]
         = index_grid nx ny ix iy (Suc k)"
proof (rule nth_equalityI)
  show "length ((index_grid nx ny ix iy k)
           [a := (index_grid nx ny ix iy k ! a)[b := index_grid nx ny ix iy k ! a ! b @ [k]]])
        = length (index_grid nx ny ix iy (Suc k))"
    by (simp add: index_grid_def)
next
  fix a'
  assume "a' < length ((index_grid nx ny ix iy k)
           [a := (index_grid nx ny ix iy k ! a)[b := index_grid nx ny ix iy k ! a ! b @ [k]]])"
  then have a': "a' < nx" by (simp add: index_grid_def)
  show "(index_grid nx ny ix iy k)
           [a := (index_grid nx ny ix iy k ! a)[b := index_grid nx ny ix iy k ! a ! b @ [k]]] ! a'
        = index_grid nx ny ix iy (Suc k) ! a'"
  proof (cases "a' = a")
    case False
    then show ?thesis using a' x by (simp add: index_grid_def)
  next
    case True
    have row: "(index_grid nx ny ix iy k)
           [a := (index_grid nx ny ix iy k ! a)[b := index_grid nx ny ix iy k ! a ! b @ [k]]] ! a
          = (index_grid nx ny ix iy k ! a)[b := index_grid nx ny ix iy k ! a ! b @ [k]]"
      using a by (simp add: index_grid_def)
    have "(index_grid nx ny ix iy k ! a)[b := index_grid nx ny ix iy k ! a ! b @ [k]]
          = index_grid nx ny ix iy (Suc k) ! a"
    proof (rule nth_equalityI)
      show "length ((index_grid nx ny ix iy k ! a)[b := index_grid nx ny ix iy k ! a ! b @ [k]])
            = length (index_grid nx ny ix iy (Suc k) ! a)"
        using a by (simp add: index_grid_def)
    next
      fix b'
      assume "b' < length ((index_grid nx ny ix iy k ! a)
                 [b := index_grid nx ny ix iy k ! a ! b @ [k]])"
      then have b': "b' < ny" using a by (simp add: index_grid_def)
      show "(index_grid nx ny ix iy k ! a)[b := index_grid nx ny ix iy k ! a ! b @ [k]] ! b'
            = index_grid nx ny ix iy (Suc k) ! a ! b'"
      proof (cases "b' = b")
        case True
        then show ?thesis using a b x y by (simp add: index_grid_def)
      next
        case False
        then show ?thesis using a b b' x y by (simp add: index_grid_def)
      qed
    qed
    with row True show ?thesis by simp
  qed
qed

lemma index_grid_Suc_out:
  assumes "\<not> in_grid nx ny (ix ! k) (iy ! k)"
  shows "index_grid nx ny ix iy (Suc k) = index_grid nx ny ix iy k"
  using assms by (auto simp: index_grid_def in_grid_def)

lemma accumulate_event_in:
  assumes "ix ! k = int a" and "iy ! k = int b" and "a < nx" and "b < ny"
  shows "accumulate_event (int nx) (int ny) (k, ix ! k, iy ! k) (index_grid nx ny ix iy k, N)
         = (index_grid nx ny ix iy (Suc k), Suc N)"
proof -
  have "int a \<notin> {- 1, int nx} \<and> int b \<notin> {- 1, int ny}" using assms(3,4) by auto
  then have "accumulate_event (int nx) (int ny) (k, int a, int b) (index_grid nx ny ix iy k, N)
        = ((index_grid nx ny ix iy k)
            [a := (index_grid nx ny ix iy k ! a)[b := index_grid nx ny ix iy k ! a ! b @ [k]]],
           Suc N)"
    unfolding accumulate_event_def by simp
  then show ?thesis
    unfolding index_grid_Suc_in [OF assms] assms(1,2) .
qed

lemma accumulate_event_out:
  assumes "\<not> in_grid nx ny xi yi"
    and "- 1 \<le> xi \<and> xi \<le> int nx \<and> - 1 \<le> yi \<and> yi \<le> int ny"
  shows "accumulate_event (int nx) (int ny) (k, xi, yi) st = st"
proof -
  have "\<not> (xi \<notin> {- 1, int nx} \<and> yi \<notin> {- 1, int ny})"
    using assms by (auto simp: in_grid_def)
  then show ?thesis
    unfolding accumulate_event_def by (cases st) simp
qed

lemma fold_accumulate_event:
  assumes len: "length ix = n" "length iy = n"
    and bounds: "\<forall>i<n. - 1 \<le> ix ! i \<and> ix ! i \<le> int nx \<and> - 1 \<le> iy ! i \<and> iy ! i \<le> int ny"
    and k: "k \<le> n"
  shows "fold (accumulate_event (int nx) (int ny)) (take k (zip [0..<n] (zip ix iy)))
           (replicate nx (replicate ny []), 0)
         = (index_grid nx ny ix iy k,
            length (filter (\<lambda>i. in_grid nx ny (ix ! i) (iy ! i)) [0..<k]))"
  using k
proof (induction k)
  case 0
  then show ?case by (simp add: index_grid_0)
next
  case (Suc k)
  then have k: "k < n" by simp
  let ?evs = "zip [0..<n] (zip ix iy)"
  let ?f = "accumulate_event (int nx) (int ny)"
  let ?init = "(replicate nx (replicate ny [])::nat list list list, 0::nat)"
  let ?P = "\<lambda>i. in_grid nx ny (ix ! i) (iy ! i)"
  have lev: "k < length ?evs" using k len by simp
  have nth: "?evs ! k = (k, ix ! k, iy ! k)" using k len by simp
  have ev: "take (Suc k) ?evs = take k ?evs @ [(k, ix ! k, iy ! k)]"
    using take_Suc_conv_app_nth [OF lev] nth by simp
  have IH: "fold ?f (take k ?evs) ?init = (index_grid nx ny ix iy k, length (filter ?P [0..<k]))"
    using Suc.IH k by simp
  have step: "fold ?f (take (Suc k) ?evs) ?init
              = ?f (k, ix ! k, iy ! k) (index_grid nx ny ix iy k, length (filter ?P [0..<k]))"
    unfolding ev fold_append by (simp only: IH comp_apply fold_simps)
  have b: "- 1 \<le> ix ! k \<and> ix ! k \<le> int nx \<and> - 1 \<le> iy ! k \<and> iy ! k \<le> int ny"
    using bounds k by simp
  show ?case
  proof (cases "?P k")
    case True
    define a where "a = nat (ix ! k)"
    define b where "b = nat (iy ! k)"
    have ab: "ix ! k = int a" "iy ! k = int b" "a < nx" "b < ny"
      using True unfolding in_grid_def a_def b_def by auto
    have "filter ?P [0..<Suc k] = filter ?P [0..<k] @ [k]" using True by simp
    then have "length (filter ?P [0..<Suc k]) = Suc (length (filter ?P [0..<k]))" by simp
    then show ?thesis
      unfolding step accumulate_event_in [OF ab] by simp
  next
    case False
    have "filter ?P [0..<Suc k] = filter ?P [0..<k]" using False by simp
    then show ?thesis
      unfolding step accumulate_event_out [OF False b] index_grid_Suc_out [OF False] by simp
  qed
qed

lemma sum_list_concat_nat: "sum_list (concat xss) = sum_list (map sum_list xss)"
  for xss :: "nat list list"
  by (induction xss) simp_all

lemma length_filter_disjoint:
  "(\<And>x. x \<in> set L \<Longrightarrow> \<not> (A x \<and> B x)) \<Longrightarrow>
   length (filter A L) + length (filter B L) = length (filter (\<lambda>x. A x \<or> B x) L)"
  by (induction L) auto

lemma count_bins:
  "(\<Sum>b\<leftarrow>[0..<ny]. length (filter (\<lambda>i. P i \<and> g i = int b) L))
   = length (filter (\<lambda>i. P i \<and> 0 \<le> g i \<and> g i < int ny) L)"
proof (induction ny)
  case 0
  have "filter (\<lambda>i. P i \<and> 0 \<le> g i \<and> g i < int 0) L = []"
    by (auto simp: filter_empty_conv)
  then show ?case by simp
next
  case (Suc ny)
  let ?A = "\<lambda>i. P i \<and> 0 \<le> g i \<and> g i < int ny"
  let ?B = "\<lambda>i. P i \<and> g i = int ny"
  have "(\<Sum>b\<leftarrow>[0..<Suc ny]. length (filter (\<lambda>i. P i \<and> g i = int b) L))
        = (\<Sum>b\<leftarrow>[0..<ny]. length (filter (\<lambda>i. P i \<and> g i = int b) L)) + length (filter ?B L)"
    by simp
  also have "\<dots> = length (filter ?A L) + length (filter ?B L)"
    unfolding Suc.IH ..
  also have "\<dots> = length (filter (\<lambda>i. ?A i \<or> ?B i) L)"
    by (rule length_filter_disjoint) auto
  also have "filter (\<lambda>i. ?A i \<or> ?B i) L = filter (\<lambda>i. P i \<and> 0 \<le> g i \<and> g i < int (Suc ny)) L"
    by (rule filter_cong) auto
  finally show ?case .
qed

lemma count_index_grid:
  "(\<Sum>a\<leftarrow>[0..<nx]. \<Sum>b\<leftarrow>[0..<ny]. length (filter (\<lambda>i. f i = int a \<and> g i = int b) L))
   = length (filter (\<lambda>i. in_grid nx ny (f i) (g i)) L)"
proof -
  let ?Q = "\<lambda>i. 0 \<le> g i \<and> g i < int ny"
  have "(\<Sum>a\<leftarrow>[0..<nx]. \<Sum>b\<leftarrow>[0..<ny]. length (filter (\<lambda>i. f i = int a \<and> g i = int b) L))
        = (\<Sum>a\<leftarrow>[0..<nx]. length (filter (\<lambda>i. f i = int a \<and> ?Q i) L))"
    unfolding count_bins ..
  also have "\<dots> = (\<Sum>a\<leftarrow>[0..<nx]. length (filter (\<lambda>i. ?Q i \<and> f i = int a) L))"
    by (simp only: conj_commute)
  also have "\<dots> = length (filter (\<lambda>i. ?Q i \<and> 0 \<le> f i \<and> f i < int nx) L)"
    by (rule count_bins)
  also have "filter (\<lambda>i. ?Q i \<and> 0 \<le> f i \<and> f i < int nx) L
             = filter (\<lambda>i. in_grid nx ny (f i) (g i)) L"
    by (rule filter_cong) (auto simp: in_grid_def)
  finally show ?thesis .
qed

lemma sum_list_concat_index_grid:
  "sum_list (concat (map (map length) (index_grid nx ny ix iy k)))
   = length (filter (\<lambda>i. in_grid nx ny (ix ! i) (iy ! i)) [0..<k])"
proof -
  have "map sum_list (map (map length) (index_grid nx ny ix iy k))
        = map (\<lambda>a. \<Sum>b\<leftarrow>[0..<ny]. length (filter (\<lambda>i. ix ! i = int a \<and> iy ! i = int b) [0..<k]))
              [0..<nx]"
    unfolding index_grid_def map_map comp_def ..
  then have "sum_list (concat (map (map length) (index_grid nx ny ix iy k)))
        = (\<Sum>a\<leftarrow>[0..<nx]. \<Sum>b\<leftarrow>[0..<ny]. length (filter (\<lambda>i. ix ! i = int a \<and> iy ! i = int b) [0..<k]))"
    unfolding sum_list_concat_nat by simp
  then show ?thesis by (simp only: count_index_grid)
qed

lemma bin_events_eq:
  assumes xe: "edges_ok xe" and ye: "edges_ok ye" and len: "length xs = length ys"
  shows "bin_events xe ye xs ys
         = (index_grid (length xe - 1) (length ye - 1)
              (map (bin_index xe) xs) (map (bin_index ye) ys) (length xs),
            length (filter (\<lambda>i. in_grid (length xe - 1) (length ye - 1)
                                  (map (bin_index xe) xs ! i) (map (bin_index ye) ys ! i))
                           [0..<length xs]))"
proof -
  define ix where "ix = map (bin_index xe) xs"
  define iy where "iy = map (bin_index ye) ys"
  define nx where "nx = length xe - 1"
  define ny where "ny = length ye - 1"
  define n where "n = length xs"
  have nx: "int (length xe) - 1 = int nx" and ny: "int (length ye) - 1 = int ny"
    using xe ye unfolding nx_def ny_def edges_ok_def by linarith+
  have ne: "xe \<noteq> []" "ye \<noteq> []" using xe ye by (auto simp: edges_ok_def)
  have lix: "length ix = n" and liy: "length iy = n"
    unfolding ix_def iy_def n_def using len by simp_all
  have bounds: "\<forall>i<n. - 1 \<le> ix ! i \<and> ix ! i \<le> int nx \<and> - 1 \<le> iy ! i \<and> iy ! i \<le> int ny"
  proof (intro allI impI)
    fix i
    assume i: "i < n"
    have "ix ! i = bin_index xe (xs ! i)" "iy ! i = bin_index ye (ys ! i)"
      using i len unfolding ix_def iy_def n_def by simp_all
    then show "- 1 \<le> ix ! i \<and> ix ! i \<le> int nx \<and> - 1 \<le> iy ! i \<and> iy ! i \<le> int ny"
      using bin_index_bounds [OF ne(1), of "xs ! i"] bin_index_bounds [OF ne(2), of "ys ! i"]
      unfolding nx ny by simp
  qed
  have "fold (accumulate_event (int nx) (int ny)) (take n (zip [0..<n] (zip ix iy)))
          (replicate nx (replicate ny []), 0)
        = (index_grid nx ny ix iy n,
           length (filter (\<lambda>i. in_grid nx ny (ix ! i) (iy ! i)) [0..<n]))"
    by (rule fold_accumulate_event [OF lix liy bounds]) simp
  moreover have "take n (zip [0..<n] (zip ix iy)) = zip [0..<n] (zip ix iy)"
    using lix liy by simp
  ultimately have "fold (accumulate_event (int nx) (int ny)) (zip [0..<n] (zip ix iy))
          (replicate nx (replicate ny []), 0)
        = (index_grid nx ny ix iy n,
           length (filter (\<lambda>i. in_grid nx ny (ix ! i) (iy ! i)) [0..<n]))"
    by simp
  then show ?thesis
    unfolding bin_events_def Let_def nx ny
    unfolding ix_def iy_def nx_def ny_def n_def .
qed

lemma length_index_grid_cell:
  assumes xe: "edges_ok xe" and ye: "edges_ok ye" and len: "length xs = length ys"
    and a: "a < length xe - 1" and b: "b < length ye - 1"
  shows "length (index_grid (length xe - 1) (length ye - 1)
              (map (bin_index xe) xs) (map (bin_index ye) ys) (length xs) ! a ! b)
         = length (filter (\<lambda>(x, y). in_bin xe a x \<and> in_bin ye b y) (zip xs ys))"
proof -
  let ?n = "length xs"
  let ?f = "\<lambda>i. (xs ! i, ys ! i)"
  have z: "zip xs ys = map ?f [0..<?n]"
    using len by (intro nth_equalityI) simp_all
  have a1: "a + 1 < length xe" and b1: "b + 1 < length ye" using a b by auto
  have "filter (\<lambda>i. map (bin_index xe) xs ! i = int a \<and> map (bin_index ye) ys ! i = int b) [0..<?n]
        = filter ((\<lambda>(x, y). in_bin xe a x \<and> in_bin ye b y) \<circ> ?f) [0..<?n]"
    using bin_index_eq_iff [OF xe a1] bin_index_eq_iff [OF ye b1] len
    by (intro filter_cong) auto
  then have "length (filter (\<lambda>i. map (bin_index xe) xs ! i = int a \<and> map (bin_index ye) ys ! i = int b) [0..<?n])
        = length (filter (\<lambda>(x, y). in_bin xe a x \<and> in_bin ye b y) (map ?f [0..<?n]))"
    by (simp only: filter_map length_map)
  then show ?thesis using a b z by (simp add: index_grid_def)
qed

lemma edges_ok_accepted: "edges_ok e \<Longrightarrow> e \<noteq> [] \<and> sorted e"
proof -
  assume ok: "edges_ok e"
  then have "e \<noteq> []" by (auto simp: edges_ok_def)
  moreover have "sorted e"
    using ok unfolding edges_ok_def by (auto intro: sorted_wrt_mono_rel [of e "(<)"])
  ultimately show ?thesis by simp
qed

lemma histogram2d_bin_events:
  assumes xe: "edges_ok xe" and ye: "edges_ok ye" and len: "length xs = length ys"
  shows "histogram2d xs ys xe ye = Inr (map (map length) (fst (bin_events xe ye xs ys)))"
proof -
  let ?G = "index_grid (length xe - 1) (length ye - 1)
              (map (bin_index xe) xs) (map (bin_index ye) ys) (length xs)"
  have "map (\<lambda>i. map (\<lambda>j. length (filter (\<lambda>(x, y). in_bin xe i x \<and> in_bin ye j y) (zip xs ys)))
                   [0..<length ye - 1]) [0..<length xe - 1]
        = map (map length) ?G"
  proof (rule nth_equalityI)
    show "length (map (\<lambda>i. map (\<lambda>j. length (filter (\<lambda>(x, y). in_bin xe i x \<and> in_bin ye j y) (zip xs ys)))
                   [0..<length ye - 1]) [0..<length xe - 1]) = length (map (map length) ?G)"
      by (simp add: index_grid_def)
  next
    fix a
    assume "a < length (map (\<lambda>i. map (\<lambda>j. length (filter (\<lambda>(x, y). in_bin xe i x \<and> in_bin ye j y) (zip xs ys)))
                   [0..<length ye - 1]) [0..<length xe - 1])"
    then have a: "a < length xe - 1" by simp
    have la: "length (?G ! a) = length ye - 1" using a by (simp add: index_grid_def)
    have lG: "length ?G = length xe - 1" by (simp add: index_grid_def)
    have "map (\<lambda>j. length (filter (\<lambda>(x, y). in_bin xe a x \<and> in_bin ye j y) (zip xs ys)))
                   [0..<length ye - 1] = map length (?G ! a)"
    proof (rule nth_equalityI)
      show "length (map (\<lambda>j. length (filter (\<lambda>(x, y). in_bin xe a x \<and> in_bin ye j y) (zip xs ys)))
                   [0..<length ye - 1]) = length (map length (?G ! a))"
        using la by simp
    next
      fix b
      assume "b < length (map (\<lambda>j. length (filter (\<lambda>(x, y). in_bin xe a x \<and> in_bin ye j y) (zip xs ys)))
                   [0..<length ye - 1])"
      then have b: "b < length ye - 1" by simp
      show "map (\<lambda>j. length (filter (\<lambda>(x, y). in_bin xe a x \<and> in_bin ye j y) (zip xs ys)))
                   [0..<length ye - 1] ! b = map length (?G ! a) ! b"
        using length_index_grid_cell [OF xe ye len a b] a b la by simp
    qed
    then show "map (\<lambda>i. map (\<lambda>j. length (filter (\<lambda>(x, y). in_bin xe i x \<and> in_bin ye j y) (zip xs ys)))
                   [0..<length ye - 1]) [0..<length xe - 1] ! a = map (map length) ?G ! a"
      using a lG by simp
  qed
  then show ?thesis
    using edges_ok_accepted [OF xe] edges_ok_accepted [OF ye]
    by (simp add: histogram2d_def bin_events_eq [OF xe ye len])
qed

lemma bin_events_count:
  assumes xe: "edges_ok xe" and ye: "edges_ok ye" and len: "length xs = length ys"
  shows "sum_list (concat (map (map length) (fst (bin_events xe ye xs ys))))
         = snd (bin_events xe ye xs ys)"
  unfolding bin_events_eq [OF xe ye len] fst_conv snd_conv
  by (rule sum_list_concat_index_grid)

lemma edges_ok_hd: "edges_ok e \<Longrightarrow> hd e = e ! 0"
  by (cases e) (auto simp: edges_ok_def)

lemma edges_ok_hd_less_last: "edges_ok e \<Longrightarrow> hd e < last e"
  using edges_ok_nth_less [of e 0 "length e - 1"] edges_ok_hd [of e] edges_ok_last [of e]
  by (auto simp: edges_ok_def)

lemma bin_index_last: "bin_index e (last e) = int (length e) - 2"
  by (simp add: bin_index_def)

lemma bin_index_in_range:
  assumes ok: "edges_ok e"
  shows "(0 \<le> bin_index e x \<and> bin_index e x < int (length e - 1)) = (hd e \<le> x \<and> x \<le> last e)"
proof (cases "x = last e")
  case True
  then show ?thesis
    using ok edges_ok_hd_less_last [OF ok] by (auto simp: bin_index_def edges_ok_def)
next
  case False
  have s: "sorted_wrt (<) e" and l: "2 \<le> length e" using ok by (auto simp: edges_ok_def)
  have l0: "0 < length e" and l1: "length e - 1 < length e" using l by auto
  have 1: "(0 < digitize x e) = (hd e \<le> x)"
    using digitize_gt_iff [OF s l0, of x] edges_ok_hd [OF ok] by simp
  have 2: "(length e - 1 < digitize x e) = (last e \<le> x)"
    using digitize_gt_iff [OF s l1, of x] edges_ok_last [OF ok] by simp
  have "(0 \<le> bin_index e x \<and> bin_index e x < int (length e - 1))
        = (0 < digitize x e \<and> \<not> length e - 1 < digitize x e)"
    using False l by (auto simp: bin_index_def)
  also have "\<dots> = (hd e \<le> x \<and> x \<le> last e)"
    unfolding 1 2 using False by auto
  finally show ?thesis .
qed

lemma in_grid_bin_index:
  assumes "edges_ok xe" and "edges_ok ye"
  shows "in_grid (length xe - 1) (length ye - 1) (bin_index xe x) (bin_index ye y)
         = (hd xe \<le> x \<and> x \<le> last xe \<and> hd ye \<le> y \<and> y \<le> last ye)"
  using bin_index_in_range [OF assms(1), of x] bin_index_in_range [OF assms(2), of y]
  unfolding in_grid_def by blast

lemma mem_index_grid:
  assumes "a < nx" and "b < ny"
  shows "(i \<in> set (index_grid nx ny ix iy k ! a ! b)) = (i < k \<and> ix ! i = int a \<and> iy ! i = int b)"
  using assms by (auto simp: index_grid_def)

lemma bin_events_snd:
  assumes xe: "edges_ok xe" and ye: "edges_ok ye" and len: "length xs = length ys"
  shows "snd (bin_events xe ye xs ys)
         = length (filter (\<lambda>(x, y). hd xe \<le> x \<and> x \<le> last xe \<and> hd ye \<le> y \<and> y \<le> last ye)
                          (zip xs ys))"
proof -
  let ?n = "length xs"
  let ?f = "\<lambda>i. (xs ! i, ys ! i)"
  let ?R = "\<lambda>(x, y). hd xe \<le> x \<and> x \<le> last xe \<and> hd ye \<le> y \<and> y \<le> last ye"
  have z: "zip xs ys = map ?f [0..<?n]"
    using len by (intro nth_equalityI) simp_all
  have "filter (\<lambda>i. in_grid (length xe - 1) (length ye - 1)
                       (map (bin_index xe) xs ! i) (map (bin_index ye) ys ! i)) [0..<?n]
        = filter (?R \<circ> ?f) [0..<?n]"
    using in_grid_bin_index [OF xe ye] len by (intro filter_cong) auto
  then have "length (filter (\<lambda>i. in_grid (length xe - 1) (length ye - 1)
                       (map (bin_index xe) xs ! i) (map (bin_index ye) ys ! i)) [0..<?n])
        = length (filter ?R (map ?f [0..<?n]))"
    by (simp only: filter_map length_map)
  then show ?thesis
    unfolding bin_events_eq [OF xe ye len] snd_conv z [symmetric] .
qed

lemma mem_bin_events:
  assumes xe: "edges_ok xe" and ye: "edges_ok ye" and len: "length xs = length ys"
    and a: "a < length xe - 1" and b: "b < length ye - 1"
  shows "(i \<in> set (fst (bin_events xe ye xs ys) ! a ! b))
         = (i < length xs \<and> bin_index xe (xs ! i) = int a \<and> bin_index ye (ys ! i) = int b)"
  unfolding bin_events_eq [OF xe ye len] fst_conv mem_index_grid [OF a b]
  using len by auto

text \<open>
  C4.  On well-formed edges the count grid of \<open>histogram2d\<close> and the grid of index
  lists built by the loop agree cell by cell, and so in total: the sum of all raw counts
  equals the number \<open>N\<close> of events the loop counted as in range.
\<close>

theorem histogram_agrees_with_index_grid:
  assumes "edges_ok xe" and "edges_ok ye" and "length xs = length ys"
  shows "\<exists>H. histogram2d xs ys xe ye = Inr H \<and>
              map (map length) (fst (bin_events xe ye xs ys)) = H \<and>
              sum_list (concat H) = snd (bin_events xe ye xs ys)"
  using histogram2d_bin_events [OF assms] bin_events_count [OF assms] by simp

theorem histogram_agrees_with_index_grid_witness:
  "edges_ok [0, 1, 2] \<and> edges_ok [0, 1, 2] \<and> length [1 / 2, 3 / 2, 2, 5 :: real] = length [1 / 2, 1 / 2, 2, 1 :: real] \<and>
   (\<exists>H. histogram2d [1 / 2, 3 / 2, 2, 5] [1 / 2, 1 / 2, 2, 1] [0, 1, 2] [0, 1, 2] = Inr H \<and>
        map (map length) (fst (bin_events [0, 1, 2] [0, 1, 2] [1 / 2, 3 / 2, 2, 5] [1 / 2, 1 / 2, 2, 1])) = H \<and>
        sum_list (concat H) = snd (bin_events [0, 1, 2] [0, 1, 2] [1 / 2, 3 / 2, 2, 5] [1 / 2, 1 / 2, 2, 1]))"
  using histogram_agrees_with_index_grid
          [of "[0, 1, 2]" "[0, 1, 2]" "[1 / 2, 3 / 2, 2, 5]" "[1 / 2, 1 / 2, 2, 1]"]
  by (simp add: edges_ok_def)

lemma bin_index_last_nat:
  assumes "edges_ok e"
  shows "bin_index e (last e) = int (length e - 2)"
proof -
  have "2 \<le> length e" using assms by (simp add: edges_ok_def)
  then have "int (length e) - 2 = int (length e - 2)" by linarith
  then show ?thesis unfolding bin_index_last .
qed

lemma bin_index_obtain:
  assumes "edges_ok e" and "hd e \<le> x" and "x \<le> last e"
  shows "\<exists>b<length e - 1. bin_index e x = int b"
proof -
  from assms bin_index_in_range [OF assms(1), of x]
  have "0 \<le> bin_index e x" and "bin_index e x < int (length e - 1)" by blast+
  then have "nat (bin_index e x) < length e - 1 \<and> bin_index e x = int (nat (bin_index e x))"
    by linarith
  then show ?thesis by blast
qed

text \<open>
  C5.  An event whose coordinate on one axis equals the last edge of that axis (and whose
  other coordinate is within the edges) is put into the last bin of that axis, not
  dropped; an event strictly outside the edges on either axis is in no cell of the index
  grid; and \<open>N\<close> counts exactly the events within the edges on both axes.
\<close>

theorem last_edge_in_last_bin:
  assumes xe: "edges_ok xe" and ye: "edges_ok ye" and len: "length xs = length ys"
    and i: "i < length xs"
  shows "(xs ! i = last xe \<and> hd ye \<le> ys ! i \<and> ys ! i \<le> last ye \<longrightarrow>
            (\<exists>b<length ye - 1. i \<in> set (fst (bin_events xe ye xs ys) ! (length xe - 2) ! b))) \<and>
         (ys ! i = last ye \<and> hd xe \<le> xs ! i \<and> xs ! i \<le> last xe \<longrightarrow>
            (\<exists>a<length xe - 1. i \<in> set (fst (bin_events xe ye xs ys) ! a ! (length ye - 2)))) \<and>
         (xs ! i < hd xe \<or> last xe < xs ! i \<or> ys ! i < hd ye \<or> last ye < ys ! i \<longrightarrow>
            (\<forall>a<length xe - 1. \<forall>b<length ye - 1. i \<notin> set (fst (bin_events xe ye xs ys) ! a ! b))) \<and>
         snd (bin_events xe ye xs ys)
           = length (filter (\<lambda>(x, y). hd xe \<le> x \<and> x \<le> last xe \<and> hd ye \<le> y \<and> y \<le> last ye)
                            (zip xs ys))"
proof (intro conjI impI)
  assume h: "xs ! i = last xe \<and> hd ye \<le> ys ! i \<and> ys ! i \<le> last ye"
  have lx: "length xe - 2 < length xe - 1" using xe by (auto simp: edges_ok_def)
  have bx: "bin_index xe (xs ! i) = int (length xe - 2)"
    using h bin_index_last_nat [OF xe] by simp
  from h bin_index_obtain [OF ye, of "ys ! i"]
  obtain b where b: "b < length ye - 1" "bin_index ye (ys ! i) = int b" by blast
  have "i \<in> set (fst (bin_events xe ye xs ys) ! (length xe - 2) ! b)"
    unfolding mem_bin_events [OF xe ye len lx b(1)] using b(2) i bx by simp
  then show "\<exists>b<length ye - 1. i \<in> set (fst (bin_events xe ye xs ys) ! (length xe - 2) ! b)"
    using b(1) by blast
next
  assume h: "ys ! i = last ye \<and> hd xe \<le> xs ! i \<and> xs ! i \<le> last xe"
  have ly: "length ye - 2 < length ye - 1" using ye by (auto simp: edges_ok_def)
  have yb: "bin_index ye (ys ! i) = int (length ye - 2)"
    using h bin_index_last_nat [OF ye] by simp
  from h bin_index_obtain [OF xe, of "xs ! i"]
  obtain a where a: "a < length xe - 1" "bin_index xe (xs ! i) = int a" by blast
  have "i \<in> set (fst (bin_events xe ye xs ys) ! a ! (length ye - 2))"
    unfolding mem_bin_events [OF xe ye len a(1) ly] using a(2) i yb by simp
  then show "\<exists>a<length xe - 1. i \<in> set (fst (bin_events xe ye xs ys) ! a ! (length ye - 2))"
    using a(1) by blast
next
  assume h: "xs ! i < hd xe \<or> last xe < xs ! i \<or> ys ! i < hd ye \<or> last ye < ys ! i"
  show "\<forall>a<length xe - 1. \<forall>b<length ye - 1. i \<notin> set (fst (bin_events xe ye xs ys) ! a ! b)"
  proof (intro allI impI)
    fix a b
    assume a: "a < length xe - 1" and b: "b < length ye - 1"
    show "i \<notin> set (fst (bin_events xe ye xs ys) ! a ! b)"
    proof
      assume "i \<in> set (fst (bin_events xe ye xs ys) ! a ! b)"
      then have eq: "bin_index xe (xs ! i) = int a" "bin_index ye (ys ! i) = int b"
        unfolding mem_bin_events [OF xe ye len a b] by blast+
      have "0 \<le> bin_index xe (xs ! i) \<and> bin_index xe (xs ! i) < int (length xe - 1)"
        unfolding eq using a by linarith
      moreover have "0 \<le> bin_index ye (ys ! i) \<and> bin_index ye (ys ! i) < int (length ye - 1)"
        unfolding eq using b by linarith
      ultimately have "hd xe \<le> xs ! i \<and> xs ! i \<le> last xe" "hd ye \<le> ys ! i \<and> ys ! i \<le> last ye"
        unfolding bin_index_in_range [OF xe] bin_index_in_range [OF ye] by blast+
      then show False using h by linarith
    qed
  qed
next
  show "snd (bin_events xe ye xs ys)
           = length (filter (\<lambda>(x, y). hd xe \<le> x \<and> x \<le> last xe \<and> hd ye \<le> y \<and> y \<le> last ye)
                            (zip xs ys))"
    by (rule bin_events_snd [OF xe ye len])
qed

theorem last_edge_in_last_bin_witness:
  "edges_ok [0, 1, 2] \<and> length [2, 3 :: real] = length [1 / 2, 1 / 2 :: real] \<and>
   (0::nat) < length [2, 3 :: real] \<and> (1::nat) < length [2, 3 :: real] \<and>
   [2, 3 :: real] ! 0 = last [0, 1, 2] \<and> last [0, 1, 2] < [2, 3 :: real] ! 1 \<and>
   (\<exists>b<length [0, 1, 2 :: real] - 1.
      0 \<in> set (fst (bin_events [0, 1, 2] [0, 1, 2] [2, 3] [1 / 2, 1 / 2]) ! (length [0, 1, 2 :: real] - 2) ! b)) \<and>
   1 \<notin> set (fst (bin_events [0, 1, 2] [0, 1, 2] [2, 3] [1 / 2, 1 / 2]) ! 0 ! 0) \<and>
   1 \<notin> set (fst (bin_events [0, 1, 2] [0, 1, 2] [2, 3] [1 / 2, 1 / 2]) ! 0 ! 1) \<and>
   1 \<notin> set (fst (bin_events [0, 1, 2] [0, 1, 2] [2, 3] [1 / 2, 1 / 2]) ! 1 ! 0) \<and>
   1 \<notin> set (fst (bin_events [0, 1, 2] [0, 1, 2] [2, 3] [1 / 2, 1 / 2]) ! 1 ! 1) \<and>
   snd (bin_events [0, 1, 2] [0, 1, 2] [2, 3] [1 / 2, 1 / 2]) = 1"
proof -
  have e: "edges_ok [0, 1, 2]" by (simp add: edges_ok_def)
  have l: "length [2, 3 :: real] = length [1 / 2, 1 / 2 :: real]" by simp
  have i0: "(0::nat) < length [2, 3 :: real]" and i1: "(1::nat) < length [2, 3 :: real]" by simp_all
  let ?Hi = "fst (bin_events [0, 1, 2] [0, 1, 2] [2, 3] [1 / 2, 1 / 2])"
  from last_edge_in_last_bin [OF e e l i1]
  have out: "\<forall>a<length [0, 1, 2 :: real] - 1. \<forall>b<length [0, 1, 2 :: real] - 1. 1 \<notin> set (?Hi ! a ! b)"
    and cnt: "snd (bin_events [0, 1, 2] [0, 1, 2] [2, 3] [1 / 2, 1 / 2]) = 1"
    by simp_all
  have o: "1 \<notin> set (?Hi ! 0 ! 0)" "1 \<notin> set (?Hi ! 0 ! 1)" "1 \<notin> set (?Hi ! 1 ! 0)"
    "1 \<notin> set (?Hi ! 1 ! 1)"
    using out by simp_all
  from last_edge_in_last_bin [OF e e l i0]
  have "\<exists>b<length [0, 1, 2 :: real] - 1. 0 \<in> set (?Hi ! (length [0, 1, 2 :: real] - 2) ! b)"
    by simp
  with o cnt e show ?thesis by simp
qed

section \<open>Properties of the selection step of density2d\<close>

lemma cumsum_length: "length (cumsum xs) = length xs"
  by (simp add: cumsum_def)

lemma cumsum_nth: "k < length xs \<Longrightarrow> cumsum xs ! k = sum_list (take (Suc k) xs)"
  by (simp add: cumsum_def)

lemma sum_list_take_mono:
  fixes xs :: "nat list"
  assumes "j \<le> k"
  shows "sum_list (take j xs) \<le> sum_list (take k xs)"
proof -
  have "take k xs = take j xs @ take (k - j) (drop j xs)"
    using assms by (metis le_add_diff_inverse take_add)
  then show ?thesis by simp
qed


lemma cumsum_last: "xs \<noteq> [] \<Longrightarrow> cumsum xs ! (length xs - 1) = sum_list xs"
  by (simp add: cumsum_nth)

lemma filter_upt_Cons:
  assumes "filter P [0..<m] = k # rest"
  shows "k < m \<and> P k \<and> (\<forall>j<k. \<not> P j)"
proof -
  from assms obtain us vs where
    split: "[0..<m] = us @ k # vs" and no: "\<forall>u\<in>set us. \<not> P u" and pk: "P k"
    unfolding filter_eq_Cons_iff by blast
  have lm: "length us < m"
    using arg_cong [OF split, of length] by simp
  have "[0..<m] ! length us = k" unfolding split by simp
  then have k: "length us = k" using lm by simp
  have "us = take k [0..<m]" unfolding split using k by simp
  then have "us = [0..<k]" using lm k by (simp add: take_upt)
  with no have "\<forall>j<k. \<not> P j" by simp
  with pk k lm show ?thesis by simp
qed

lemma first_reaching_Inr:
  assumes "first_reaching cs n = Inr k"
  shows "k < length cs \<and> n \<le> int (cs ! k) \<and> (\<forall>j<k. int (cs ! j) < n)"
proof -
  from assms obtain rest where "filter (\<lambda>k. n \<le> int (cs ! k)) [0..<length cs] = k # rest"
    unfolding first_reaching_def by (auto split: list.splits)
  from filter_upt_Cons [OF this] show ?thesis by (simp add: not_le)
qed

lemma first_reaching_exists:
  assumes "k < length cs" and "n \<le> int (cs ! k)"
  shows "\<exists>k'. first_reaching cs n = Inr k'"
proof -
  have "k \<in> set (filter (\<lambda>k. n \<le> int (cs ! k)) [0..<length cs])" using assms by simp
  then have "filter (\<lambda>k. n \<le> int (cs ! k)) [0..<length cs] \<noteq> []"
    by (metis empty_iff empty_set)
  then show ?thesis unfolding first_reaching_def by (auto split: list.splits)
qed

lemma first_reaching_never:
  assumes "\<forall>k<length cs. int (cs ! k) < n"
  shows "first_reaching cs n = Inl IndexError"
proof -
  have "filter (\<lambda>k. n \<le> int (cs ! k)) [0..<length cs] = []"
    using assms by (auto simp: filter_empty_conv)
  then show ?thesis unfolding first_reaching_def by simp
qed


lemma sum_list_perm_nth:
  fixes v :: "nat list"
  assumes "mset sidx = mset [0..<length v]"
  shows "sum_list (map (\<lambda>i. v ! i) sidx) = sum_list v"
proof -
  have "mset (map (\<lambda>i. v ! i) sidx) = image_mset (\<lambda>i. v ! i) (mset [0..<length v])"
    using assms by simp
  also have "\<dots> = mset (map (\<lambda>i. v ! i) [0..<length v])" by simp
  also have "map (\<lambda>i. v ! i) [0..<length v] = v" by (rule map_nth)
  finally have "mset (map (\<lambda>i. v ! i) sidx) = mset v" .
  then show ?thesis by (metis sum_mset_sum_list)
qed

lemma perm_upt_bounds:
  assumes "mset sidx = mset [0..<m]"
  shows "length sidx = m" and "\<forall>i\<in>set sidx. i < m" and "distinct sidx"
proof -
  show "length sidx = m" using mset_eq_length [OF assms] by simp
  show "\<forall>i\<in>set sidx. i < m" using mset_eq_setD [OF assms] by auto
  show "distinct sidx" using assms by (metis distinct_upt mset_eq_imp_distinct_iff)
qed

lemma length_column: "length (column data c) = length (rows data)"
  by (simp add: column_def)

lemma length_select:
  assumes cells: "map length vHi = vH" and bound: "\<forall>i\<in>set is. i < length vH"
  shows "length (sort (concat (map (\<lambda>i. vHi ! i) is))) = sum_list (map (\<lambda>i. vH ! i) is)"
proof -
  have "\<And>i. i \<in> set is \<Longrightarrow> length (vHi ! i) = vH ! i"
  proof -
    fix i
    assume "i \<in> set is"
    then have "i < length vH" using bound by blast
    then have "i < length vHi" using cells by (metis length_map)
    then have "map length vHi ! i = length (vHi ! i)" by simp
    then show "length (vHi ! i) = vH ! i" using cells by simp
  qed
  then have "map (\<lambda>i. length (vHi ! i)) is = map (\<lambda>i. vH ! i) is"
    by (intro map_cong) simp_all
  then have "sum_list (map length (map (\<lambda>i. vHi ! i) is)) = sum_list (map (\<lambda>i. vH ! i) is)"
    unfolding map_map comp_def by (rule arg_cong)
  then show ?thesis by (simp only: length_sort length_concat)
qed

lemma select_events_Inr:
  assumes cells: "map length (concat Hi) = concat H"
    and perm: "mset sidx = mset [0..<length (concat H)]"
    and sel: "select_events H Hi sidx n = Inr m"
  shows "\<exists>k<length sidx.
           first_reaching (cumsum (map (\<lambda>i. concat H ! i) sidx)) n = Inr k \<and>
           m = sort (concat (map (\<lambda>i. concat Hi ! i) (take (Suc k) sidx))) \<and>
           length m = sum_list (map (\<lambda>i. concat H ! i) (take (Suc k) sidx)) \<and>
           length m = cumsum (map (\<lambda>i. concat H ! i) sidx) ! k \<and>
           n \<le> int (sum_list (map (\<lambda>i. concat H ! i) (take (Suc k) sidx))) \<and>
           (\<forall>j<k. int (sum_list (map (\<lambda>i. concat H ! i) (take (Suc j) sidx))) < n)"
proof -
  let ?svH = "map (\<lambda>i. concat H ! i) sidx"
  from sel obtain k where fr: "first_reaching (cumsum ?svH) n = Inr k"
    and m: "m = sort (concat (map (\<lambda>i. concat Hi ! i) (take (Suc k) sidx)))"
    unfolding select_events_def Let_def by (auto split: sum.splits)
  from first_reaching_Inr [OF fr]
  have k: "k < length sidx" and reach: "n \<le> int (cumsum ?svH ! k)"
    and before: "\<forall>j<k. int (cumsum ?svH ! j) < n"
    by (simp_all add: cumsum_length)
  have cs: "\<And>j. j < length sidx \<Longrightarrow>
              cumsum ?svH ! j = sum_list (map (\<lambda>i. concat H ! i) (take (Suc j) sidx))"
    by (simp add: cumsum_nth take_map)
  have "\<forall>i\<in>set (take (Suc k) sidx). i < length (concat H)"
    using perm_upt_bounds(2) [OF perm] by (meson in_set_takeD)
  from length_select [OF cells this]
  have len: "length m = sum_list (map (\<lambda>i. concat H ! i) (take (Suc k) sidx))"
    unfolding m .
  have b': "\<forall>j<k. int (sum_list (map (\<lambda>i. concat H ! i) (take (Suc j) sidx))) < n"
  proof (intro allI impI)
    fix j assume j: "j < k"
    then have "j < length sidx" using k by simp
    from cs [OF this] before j show "int (sum_list (map (\<lambda>i. concat H ! i) (take (Suc j) sidx))) < n"
      by metis
  qed
  show ?thesis
    using k fr m len reach b' cs [OF k] by auto
qed

lemma select_events_exists:
  assumes perm: "mset sidx = mset [0..<length (concat H)]"
    and ne: "concat H \<noteq> []"
    and n: "n \<le> int (sum_list (concat H))"
  shows "\<exists>m. select_events H Hi sidx n = Inr m"
proof -
  let ?svH = "map (\<lambda>i. concat H ! i) sidx"
  have l: "length sidx = length (concat H)" by (rule perm_upt_bounds(1) [OF perm])
  then have ne': "?svH \<noteq> []" using ne by auto
  have "cumsum ?svH ! (length ?svH - 1) = sum_list (concat H)"
    unfolding cumsum_last [OF ne'] by (rule sum_list_perm_nth [OF perm])
  moreover have "length ?svH - 1 < length (cumsum ?svH)"
    using ne' by (simp add: cumsum_length)
  ultimately obtain k where "first_reaching (cumsum ?svH) n = Inr k"
    using first_reaching_exists [of "length ?svH - 1" "cumsum ?svH" n] n by auto
  then show ?thesis unfolding select_events_def Let_def by simp
qed

lemma select_events_never:
  assumes "\<forall>k<length sidx. int (sum_list (map (\<lambda>i. concat H ! i) (take (Suc k) sidx))) < n"
  shows "select_events H Hi sidx n = Inl IndexError"
proof -
  let ?svH = "map (\<lambda>i. concat H ! i) sidx"
  have "\<forall>k<length (cumsum ?svH). int (cumsum ?svH ! k) < n"
    using assms by (simp add: cumsum_length cumsum_nth take_map)
  from first_reaching_never [OF this] show ?thesis
    unfolding select_events_def Let_def by simp
qed


lemma np_le_total: "np_le x y \<or> np_le y x"
  by (cases x; cases y) auto

lemma np_le_trans: "np_le x y \<Longrightarrow> np_le y z \<Longrightarrow> np_le x z"
  by (cases x; cases y; cases z) auto

lemma mset_insert_by: "mset (insert_by v i js) = add_mset i (mset js)"
  by (induction js) auto

lemma set_insert_by: "set (insert_by v i js) = insert i (set js)"
  by (induction js) auto

lemma sorted_insert_by:
  "sorted_wrt (\<lambda>i j. np_le (v ! i) (v ! j)) js \<Longrightarrow>
   sorted_wrt (\<lambda>i j. np_le (v ! i) (v ! j)) (insert_by v i js)"
proof (induction js)
  case Nil
  then show ?case by simp
next
  case (Cons j js)
  show ?case
  proof (cases "np_le (v ! i) (v ! j)")
    case True
    then show ?thesis using Cons.prems np_le_trans by auto
  next
    case False
    then have "np_le (v ! j) (v ! i)" using np_le_total by blast
    then show ?thesis using False Cons by (auto simp: set_insert_by)
  qed
qed

lemma mset_foldr_insert_by: "mset (foldr (insert_by v) is []) = mset is"
  by (induction "is") (simp_all add: mset_insert_by)

lemma sorted_foldr_insert_by:
  "sorted_wrt (\<lambda>i j. np_le (v ! i) (v ! j)) (foldr (insert_by v) is [])"
  by (induction "is") (simp_all add: sorted_insert_by)

lemma argsort_ok_argsort_stable: "argsort_ok argsort_stable"
  unfolding argsort_ok_def argsort_stable_def
  by (simp add: mset_foldr_insert_by sorted_foldr_insert_by)

lemma argsort_stable_single: "length v = 1 \<Longrightarrow> argsort_stable v = [0]"
  by (simp add: argsort_stable_def)

lemma keeps_shape_gaussian_filter: "keeps_shape (gaussian_filter sigma)"
  unfolding keeps_shape_def gaussian_filter_def Let_def
  by (auto intro!: nth_equalityI)

lemma length_concat_shape:
  assumes "map length A = map length B"
  shows "length (concat A) = length (concat B)"
  unfolding length_concat assms ..

lemma length_density_field:
  assumes "keeps_shape gf"
  shows "length (concat (density_field (gf (map (map real) H)))) = length (concat H)"
proof -
  have "map length (density_field (gf (map (map real) H))) = map length (gf (map (map real) H))"
    by (simp add: density_field_def)
  also have "\<dots> = map length (map (map real) H)" using assms by (simp add: keeps_shape_def)
  also have "\<dots> = map length H" by simp
  finally show ?thesis by (rule length_concat_shape)
qed

lemma density_order_perm:
  assumes "argsort_ok argsort" and "keeps_shape gf"
  shows "mset (density_order gf argsort H) = mset [0..<length (concat H)]"
proof -
  let ?vD = "concat (density_field (gf (map (map real) H)))"
  have "mset (argsort ?vD) = mset [0..<length ?vD]" using assms(1) by (simp add: argsort_ok_def)
  then show ?thesis
    unfolding density_order_def length_density_field [OF assms(2)] by simp
qed

lemma density_order_sorted:
  assumes "argsort_ok argsort"
  shows "sorted_wrt (\<lambda>i j. np_le (concat (density_field (gf (map (map real) H))) ! j)
                              (concat (density_field (gf (map (map real) H))) ! i))
           (density_order gf argsort H)"
  using assms unfolding density_order_def sorted_wrt_rev argsort_ok_def by blast

lemma density_order_single:
  assumes "keeps_shape gf" and "length (concat H) = 1"
  shows "density_order gf argsort_stable H = [0]"
  unfolding density_order_def
  using argsort_stable_single [of "concat (density_field (gf (map (map real) H)))"]
    length_density_field [OF assms(1), of H] assms(2) by simp

lemma index_columns_two:
  assumes "length channels = 2" and "list_all (\<lambda>c. c < ncols data) channels"
  shows "\<exists>data_ch. index_columns data channels = Inr data_ch \<and>
           length data_ch = length (rows data) \<and>
           map (\<lambda>r. r ! 0) data_ch = column data (channels ! 0) \<and>
           map (\<lambda>r. r ! 1) data_ch = column data (channels ! 1)"
  using assms by (simp add: index_columns_def column_def)

lemma density2d_unfold:
  assumes ch: "length channels = 2" "list_all (\<lambda>c. c < ncols data) channels"
    and n: "1 < length (rows data)" and xe: "edges_ok xe" and ye: "edges_ok ye"
  shows "density2d gf argsort data channels xe ye f =
           (case select_events
                   (map (map length)
                      (fst (bin_events xe ye (column data (channels ! 0)) (column data (channels ! 1)))))
                   (fst (bin_events xe ye (column data (channels ! 0)) (column data (channels ! 1))))
                   (density_order gf argsort
                      (map (map length)
                         (fst (bin_events xe ye (column data (channels ! 0)) (column data (channels ! 1))))))
                   \<lceil>f * real (snd (bin_events xe ye (column data (channels ! 0)) (column data (channels ! 1))))\<rceil>
            of Inl e \<Rightarrow> Inl e
             | Inr m \<Rightarrow> (case index_rows data m of
                           Inl e \<Rightarrow> Inl e
                         | Inr gated \<Rightarrow> Inr \<lparr>gated_data = gated, mask = m\<rparr>))"
proof -
  let ?xs = "column data (channels ! 0)" and ?ys = "column data (channels ! 1)"
  from index_columns_two [OF ch] obtain data_ch where
    ic: "index_columns data channels = Inr data_ch" and l: "length data_ch = length (rows data)"
    and x: "map (\<lambda>r. r ! 0) data_ch = ?xs" and y: "map (\<lambda>r. r ! 1) data_ch = ?ys"
    by blast
  have len: "length ?xs = length ?ys" by (simp add: length_column)
  have h: "histogram2d ?xs ?ys xe ye = Inr (map (map length) (fst (bin_events xe ye ?xs ?ys)))"
    by (rule histogram2d_bin_events [OF xe ye len])
  show ?thesis
    unfolding density2d_def Let_def ic sum.case x y h
    using ch(1) n l by simp
qed

lemma cells_bin_events: "map length (concat Hi) = concat (map (map length) Hi)"
  by (simp add: map_concat)

lemma concat_histogram_nonempty:
  assumes xe: "edges_ok xe" and ye: "edges_ok ye" and len: "length xs = length ys"
  shows "concat (map (map length) (fst (bin_events xe ye xs ys))) \<noteq> []"
proof -
  let ?G = "index_grid (length xe - 1) (length ye - 1)
              (map (bin_index xe) xs) (map (bin_index ye) ys) (length xs)"
  have nx: "0 < length xe - 1" and ny: "0 < length ye - 1"
    using xe ye by (auto simp: edges_ok_def)
  have "length ?G = length xe - 1" by (simp add: index_grid_def)
  moreover have "length (?G ! 0) = length ye - 1" using nx by (simp add: index_grid_def)
  ultimately have "?G ! 0 \<in> set ?G" "?G ! 0 \<noteq> []" using nx ny by auto
  then have "map length (?G ! 0) \<in> set (map (map length) ?G)" "map length (?G ! 0) \<noteq> []"
    by auto
  then have "concat (map (map length) ?G) \<noteq> []"
    unfolding concat_eq_Nil_conv by blast
  then show ?thesis unfolding bin_events_eq [OF xe ye len] fst_conv .
qed



lemma grid_at_zero: "all_zero M \<Longrightarrow> grid_at M i j = 0"
  unfolding all_zero_def grid_at_def
  by (metis nat_less_iff nth_mem)

lemma sum_list_weights_zero: "(\<Sum>k\<leftarrow>ks. (w k :: real) * 0) = 0"
  by (induction ks) simp_all

lemma gaussian_filter_zero:
  assumes z: "all_zero M"
  shows "gaussian_filter sigma M = M"
proof -
  define w where "w = gaussian_weights sigma"
  define lw where "lw = int (length w div 2)"
  define A where "A = map (\<lambda>i. map (\<lambda>j. \<Sum>k\<leftarrow>[0..<length w]. w ! k * grid_at M (int i + int k - lw) (int j))
                            [0..<length (M ! i)]) [0..<length M]"
  have A0: "A = map (\<lambda>i. map (\<lambda>j. 0) [0..<length (M ! i)]) [0..<length M]"
    unfolding A_def grid_at_zero [OF z] sum_list_weights_zero ..
  have zA: "all_zero A" unfolding A0 all_zero_def by auto
  have "gaussian_filter sigma M
        = map (\<lambda>i. map (\<lambda>j. \<Sum>k\<leftarrow>[0..<length w]. w ! k * grid_at A (int i) (int j + int k - lw))
                        [0..<length (M ! i)]) [0..<length M]"
    unfolding gaussian_filter_def Let_def w_def lw_def A_def ..
  also have "\<dots> = map (\<lambda>i. map (\<lambda>j. 0) [0..<length (M ! i)]) [0..<length M]"
    unfolding grid_at_zero [OF zA] sum_list_weights_zero ..
  also have "\<dots> = M"
  proof (rule nth_equalityI)
    show "length (map (\<lambda>i. map (\<lambda>j. 0) [0..<length (M ! i)]) [0..<length M]) = length M" by simp
  next
    fix i
    assume "i < length (map (\<lambda>i. map (\<lambda>j. 0::real) [0..<length (M ! i)]) [0..<length M])"
    then have i: "i < length M" by simp
    have "map (\<lambda>j. 0) [0..<length (M ! i)] = M ! i"
    proof (rule nth_equalityI)
      show "length (map (\<lambda>j. 0::real) [0..<length (M ! i)]) = length (M ! i)" by simp
    next
      fix j
      assume "j < length (map (\<lambda>j. 0::real) [0..<length (M ! i)])"
      then have j: "j < length (M ! i)" by simp
      then have "M ! i ! j = 0" using z i unfolding all_zero_def by (meson nth_mem)
      then show "map (\<lambda>j. 0) [0..<length (M ! i)] ! j = M ! i ! j" using j by simp
    qed
    then show "map (\<lambda>i. map (\<lambda>j. 0) [0..<length (M ! i)]) [0..<length M] ! i = M ! i"
      using i by simp
  qed
  finally show ?thesis .
qed

lemma sum_list_zero_nat:
  fixes v :: "nat list"
  assumes "sum_list v = 0"
  shows "\<forall>x\<in>set v. x = 0"
  using assms by simp

lemma all_zero_real_grid:
  assumes "sum_list (concat H) = (0::nat)"
  shows "all_zero (map (map real) H)"
  using assms unfolding all_zero_def by auto

lemma sum_list_real_zero: "\<forall>v\<in>set r. v = (0::real) \<Longrightarrow> sum_list r = 0"
  by (induction r) simp_all

lemma sum_list_concat_all_zero: "all_zero M \<Longrightarrow> sum_list (concat M) = 0"
proof -
  assume "all_zero M"
  then have "\<forall>v\<in>set (concat M). v = 0" unfolding all_zero_def by auto
  then show ?thesis by (rule sum_list_real_zero)
qed

lemma density_field_all_zero:
  assumes "all_zero M" and "concat M \<noteq> []"
  shows "set (concat (density_field M)) = {NaN}"
proof -
  have s: "sum_list (concat M) = 0" by (rule sum_list_concat_all_zero [OF assms(1)])
  have "\<And>r. r \<in> set M \<Longrightarrow> map (\<lambda>v. np_divide v 0) r = map (\<lambda>v. NaN) r"
    using assms(1) unfolding all_zero_def by (intro map_cong) (simp_all add: np_divide_def)
  then have "density_field M = map (map (\<lambda>v. NaN)) M"
    unfolding density_field_def s by (intro map_cong) simp_all
  then have "concat (density_field M) = map (\<lambda>v. NaN) (concat M)"
    by (simp add: map_concat)
  then have "set (concat (density_field M)) = (\<lambda>v. NaN) ` set (concat M)"
    by (simp only: set_map)
  moreover have "hd (concat M) \<in> set (concat M)"
    using assms(2) by (rule hd_in_set)
  ultimately show ?thesis by blast
qed

section \<open>Properties of density2d\<close>

lemma set_sort_concat_take:
  "set (sort (concat (map (\<lambda>i. vHi ! i) is))) = (\<Union>b\<in>set is. set (vHi ! b))"
  by auto

lemma eval_density_order_single:
  "length (concat H) = 1 \<Longrightarrow> density_order (gaussian_filter sigma) argsort_stable H = [0]"
  by (rule density_order_single [OF keeps_shape_gaussian_filter])

text \<open>
  The contract of the gates: the three Boolean gates return a mask with one flag per row
  and the rows whose flag is set; \<open>density2d\<close> returns the rows at the indices of its
  mask, which is sorted.
\<close>

lemma start_end_contract:
  assumes "start_end data num_start num_end = Inr out"
  shows "length (mask out) = length (rows data) \<and>
         gated_data out = take_mask (rows data) (mask out)"
  using assms
  by (auto simp: start_end_def Let_def length_assign_slice split: if_splits)

lemma high_low_contract:
  assumes "high_low data channels high low = Inr out"
  shows "length (mask out) = length (rows data) \<and>
         gated_data out = take_mask (rows data) (mask out)"
  using assms
  by (auto simp: high_low_def index_columns_def Let_def split: option.splits if_splits)

lemma ellipse_contract:
  assumes "ellipse data channels center a b theta lg = Inr out"
  shows "length (mask out) = length (rows data) \<and>
         gated_data out = take_mask (rows data) (mask out)"
  using assms
  by (auto simp: ellipse_def index_columns_def Let_def split: if_splits)

lemma density2d_contract:
  assumes "density2d gf argsort data channels xe ye f = Inr out"
  shows "gated_data out = map (\<lambda>i. rows data ! i) (mask out) \<and> sorted (mask out)"
  using assms
  by (auto simp: density2d_def select_events_def index_rows_def Let_def
      split: if_splits sum.splits)

text \<open>
  C1 fails on \<open>density2d\<close>: for two events, one of them outside the edges, the mask it
  returns is the list \<open>[0]\<close> of the retained row indices, of length 1, and not a Boolean
  sequence of length 2 as the other gates return and the header of the module documents.
\<close>

theorem density2d_mask_is_index_list:
  "density2d (gaussian_filter 10) argsort_stable \<lparr>ncols = 2, rows = [[1 / 2, 1 / 2], [5, 5]]\<rparr>
     [0, 1] [0, 1] [0, 1] (65 / 100)
   = Inr \<lparr>gated_data = [[1 / 2, 1 / 2]], mask = [0]\<rparr>"
proof -
  let ?data = "\<lparr>ncols = 2, rows = [[1 / 2, 1 / 2], [5, 5 :: real]]\<rparr>"
  have c: "length [0::nat, 1] = 2" "list_all (\<lambda>c. c < ncols ?data) [0, 1]" by simp_all
  have n: "1 < length (rows ?data)" by simp
  have e: "edges_ok [0, 1]" by (simp add: edges_ok_def)
  have col: "column ?data ([0, 1] ! 0) = [1 / 2, 5]" "column ?data ([0, 1] ! 1) = [1 / 2, 5]"
    by (simp_all add: column_def)
  have ev: "bin_events [0, 1] [0, 1] [1 / 2, 5] [1 / 2, 5] = ([[[0]]], 1)"
    by (simp add: bin_events_def bin_index_def accumulate_event_def upt_rec)
  have ord: "density_order (gaussian_filter 10) argsort_stable [[Suc 0]] = [0]"
    by (rule eval_density_order_single) simp
  have sel: "select_events [[Suc 0]] [[[0]]] [0] 1 = Inr [0]"
    by (simp add: select_events_def cumsum_def first_reaching_def)
  show ?thesis
    unfolding density2d_unfold [OF c n e e] col ev
    by (simp add: ord sel index_rows_def)
qed

lemma select_events_zero_mass:
  assumes cells: "map length (concat Hi) = concat H"
    and perm: "mset sidx = mset [0..<length (concat H)]"
    and ne: "concat H \<noteq> []"
    and zero: "sum_list (concat H) = 0"
  shows "select_events H Hi sidx 0 = Inr []"
proof -
  have "(0::int) \<le> int (sum_list (concat H))" by simp
  from select_events_exists [OF perm ne this, of Hi] obtain m where
    m: "select_events H Hi sidx 0 = Inr m" by blast
  from select_events_Inr [OF cells perm m] obtain k where
    len: "length m = sum_list (map (\<lambda>i. concat H ! i) (take (Suc k) sidx))" by blast
  have "sum_list (map (\<lambda>i. concat H ! i) sidx) = 0"
    unfolding sum_list_perm_nth [OF perm] by (rule zero)
  moreover have "sum_list (map (\<lambda>i. concat H ! i) (take (Suc k) sidx))
                 \<le> sum_list (map (\<lambda>i. concat H ! i) sidx)"
    using sum_list_take_mono [of "Suc k" "length sidx" "map (\<lambda>i. concat H ! i) sidx"]
    by (cases "Suc k \<le> length sidx") (simp_all add: take_map)
  ultimately have "length m = 0" unfolding len by linarith
  then show ?thesis using m by simp
qed

text \<open>
  C2 (as amended).  When no event lies within the edges, the histogram and its smoothed
  version have zero total mass, and the gate has no check for it: the normalising
  division is carried out and every density is \<open>nan\<close>.  The target count is then 0, the
  selection of lines 290-304 succeeds with the empty list of events, and the gate fails
  only at the final row selection \<open>data[mask]\<close>, with numpy's IndexError for an index
  array that is not of integer type.
\<close>

theorem density2d_zero_mass_divides_silently:
  fixes data channels xe ye f sigma argsort
  defines "xs \<equiv> column data (channels ! 0)" and "ys \<equiv> column data (channels ! 1)"
  defines "Hi \<equiv> fst (bin_events xe ye xs ys)" and "N \<equiv> snd (bin_events xe ye xs ys)"
  defines "H \<equiv> map (map length) Hi"
  defines "sH \<equiv> gaussian_filter sigma (map (map real) H)"
  assumes ch: "length channels = 2" "list_all (\<lambda>c. c < ncols data) channels"
    and n: "1 < length (rows data)" and xe: "edges_ok xe" and ye: "edges_ok ye"
    and as: "argsort_ok argsort"
    and zero: "N = 0"
  shows "histogram2d xs ys xe ye = Inr H \<and> sum_list (concat H) = 0 \<and>
         sum_list (concat sH) = 0 \<and> set (concat (density_field sH)) = {NaN} \<and>
         \<lceil>f * real N\<rceil> = 0 \<and>
         select_events H Hi (density_order (gaussian_filter sigma) argsort H) \<lceil>f * real N\<rceil> = Inr [] \<and>
         index_rows data [] = Inl NonIntegerIndexError \<and>
         density2d (gaussian_filter sigma) argsort data channels xe ye f = Inl NonIntegerIndexError"
proof -
  have len: "length xs = length ys" unfolding xs_def ys_def by (simp add: length_column)
  have hist: "histogram2d xs ys xe ye = Inr H"
    unfolding H_def Hi_def by (rule histogram2d_bin_events [OF xe ye len])
  have sum: "sum_list (concat H) = 0"
    unfolding H_def Hi_def bin_events_count [OF xe ye len] using zero unfolding N_def .
  have zH: "all_zero (map (map real) H)" by (rule all_zero_real_grid [OF sum])
  have sH: "sH = map (map real) H" unfolding sH_def by (rule gaussian_filter_zero [OF zH])
  have ne: "concat H \<noteq> []"
    unfolding H_def Hi_def by (rule concat_histogram_nonempty [OF xe ye len])
  have ne': "concat (map (map real) H) \<noteq> []" using ne by (simp add: map_concat [symmetric])
  have mass: "sum_list (concat sH) = 0" unfolding sH by (rule sum_list_concat_all_zero [OF zH])
  have nan: "set (concat (density_field sH)) = {NaN}"
    unfolding sH by (rule density_field_all_zero [OF zH ne'])
  have cells: "map length (concat Hi) = concat H" unfolding H_def by (rule cells_bin_events)
  have perm: "mset (density_order (gaussian_filter sigma) argsort H) = mset [0..<length (concat H)]"
    by (rule density_order_perm [OF as keeps_shape_gaussian_filter])
  have tgt: "\<lceil>f * real N\<rceil> = 0" unfolding zero by simp
  have sel: "select_events H Hi (density_order (gaussian_filter sigma) argsort H) \<lceil>f * real N\<rceil>
             = Inr []"
    unfolding tgt by (rule select_events_zero_mass [OF cells perm ne sum])
  have idx: "index_rows data [] = Inl NonIntegerIndexError" by (simp add: index_rows_def)
  have "density2d (gaussian_filter sigma) argsort data channels xe ye f = Inl NonIntegerIndexError"
    unfolding density2d_unfold [OF ch n xe ye]
    using sel idx unfolding H_def Hi_def N_def xs_def ys_def by simp
  with hist sum mass nan tgt sel idx show ?thesis by (intro conjI)
qed

theorem density2d_zero_mass_divides_silently_witness:
  "length [0::nat, 1] = 2 \<and> list_all (\<lambda>c. c < ncols \<lparr>ncols = 2, rows = [[5, 5], [6, 6]]\<rparr>) [0, 1] \<and>
   1 < length (rows \<lparr>ncols = 2, rows = [[5, 5], [6, 6]]\<rparr>) \<and> edges_ok [0, 1] \<and>
   argsort_ok argsort_stable \<and>
   snd (bin_events [0, 1] [0, 1] [5, 6] [5, 6]) = 0 \<and>
   histogram2d [5, 6] [5, 6] [0, 1] [0, 1] = Inr [[0]] \<and>
   set (concat (density_field (gaussian_filter 10 [[0]]))) = {NaN} \<and>
   select_events [[0]] [[[]]] (density_order (gaussian_filter 10) argsort_stable [[0]]) 0 = Inr [] \<and>
   density2d (gaussian_filter 10) argsort_stable \<lparr>ncols = 2, rows = [[5, 5], [6, 6]]\<rparr>
     [0, 1] [0, 1] [0, 1] (65 / 100) = Inl NonIntegerIndexError"
proof -
  let ?data = "\<lparr>ncols = 2, rows = [[5, 5], [6, 6 :: real]]\<rparr>"
  have c: "length [0::nat, 1] = 2" "list_all (\<lambda>c. c < ncols ?data) [0, 1]" by simp_all
  have n: "1 < length (rows ?data)" by simp
  have e: "edges_ok [0, 1]" by (simp add: edges_ok_def)
  have col: "column ?data ([0, 1] ! 0) = [5, 6]" "column ?data ([0, 1] ! 1) = [5, 6]"
    by (simp_all add: column_def)
  have ev: "bin_events [0, 1] [0, 1] [5, 6] [5, 6] = ([[[]]], 0)"
    by (simp add: bin_events_def bin_index_def accumulate_event_def upt_rec)
  have z: "snd (bin_events [0, 1] [0, 1] (column ?data ([0, 1] ! 0)) (column ?data ([0, 1] ! 1))) = 0"
    unfolding col ev by simp
  from density2d_zero_mass_divides_silently [OF c n e e argsort_ok_argsort_stable z, of 10 "65 / 100"]
  show ?thesis
    using c n e argsort_ok_argsort_stable unfolding col ev by simp
qed

text \<open>
  C2 as stated fails: with both events outside the edges the gate reports no error at
  the division.  The histogram is \<open>[[0]]\<close>, the normalisation of its smoothed version
  returns the density \<open>nan\<close>, the selection returns the empty list, and the error the
  gate ends with is the one of the row selection.
\<close>

theorem density2d_zero_mass_counterexample:
  "histogram2d [5, 6] [5, 6] [0, 1] [0, 1] = Inr [[0]] \<and>
   density_field (gaussian_filter 10 (map (map real) [[0]])) = [[NaN]] \<and>
   select_events [[0]] [[[]]] (density_order (gaussian_filter 10) argsort_stable [[0]]) 0 = Inr [] \<and>
   density2d (gaussian_filter 10) argsort_stable \<lparr>ncols = 2, rows = [[5, 5], [6, 6]]\<rparr>
     [0, 1] [0, 1] [0, 1] (65 / 100) = Inl NonIntegerIndexError"
proof -
  let ?data = "\<lparr>ncols = 2, rows = [[5, 5], [6, 6 :: real]]\<rparr>"
  have "all_zero (map (map real) [[0]])" by (simp add: all_zero_def)
  from gaussian_filter_zero [OF this, of 10]
  have nan: "density_field (gaussian_filter 10 (map (map real) [[0]])) = [[NaN]]"
    by (simp add: density_field_def np_divide_def)
  have hist: "histogram2d [5, 6] [5, 6] [0, 1] [0, 1] = Inr [[0]]"
    by (simp add: histogram2d_def in_bin_def)
  have c: "length [0::nat, 1] = 2" "list_all (\<lambda>c. c < ncols ?data) [0, 1]" by simp_all
  have n: "1 < length (rows ?data)" by simp
  have e: "edges_ok [0, 1]" by (simp add: edges_ok_def)
  have col: "column ?data ([0, 1] ! 0) = [5, 6]" "column ?data ([0, 1] ! 1) = [5, 6]"
    by (simp_all add: column_def)
  have ev: "bin_events [0, 1] [0, 1] [5, 6] [5, 6] = ([[[]]], 0)"
    by (simp add: bin_events_def bin_index_def accumulate_event_def upt_rec)
  have ord: "density_order (gaussian_filter 10) argsort_stable [[0]] = [0]"
    by (rule eval_density_order_single) simp
  have sel: "select_events [[0]] [[[]]] [0] 0 = Inr []"
    by (simp add: select_events_def cumsum_def first_reaching_def)
  have "density2d (gaussian_filter 10) argsort_stable ?data [0, 1] [0, 1] [0, 1] (65 / 100)
        = Inl NonIntegerIndexError"
    unfolding density2d_unfold [OF c n e e] col ev
    by (simp add: ord sel index_rows_def)
  with hist nan sel ord show ?thesis by simp
qed



text \<open>
  C9 (as amended).  If on a valid input the running sum of the raw counts over the bins
  in density order never reaches the target \<open>ceil(f * N)\<close>, the gate fails with
  IndexError, raised by taking element 0 of the empty result of \<open>np.nonzero\<close>.
\<close>

theorem density2d_unreached_target_raises_index_error:
  fixes data channels xe ye f gf argsort
  defines "xs \<equiv> column data (channels ! 0)" and "ys \<equiv> column data (channels ! 1)"
  defines "Hi \<equiv> fst (bin_events xe ye xs ys)" and "N \<equiv> snd (bin_events xe ye xs ys)"
  defines "H \<equiv> map (map length) Hi"
  defines "sidx \<equiv> density_order gf argsort H"
  assumes ch: "length channels = 2" "list_all (\<lambda>c. c < ncols data) channels"
    and n: "1 < length (rows data)" and xe: "edges_ok xe" and ye: "edges_ok ye"
    and never: "\<forall>k<length sidx.
                  int (sum_list (map (\<lambda>i. concat H ! i) (take (Suc k) sidx))) < \<lceil>f * real N\<rceil>"
  shows "density2d gf argsort data channels xe ye f = Inl IndexError"
proof -
  have "select_events H Hi sidx \<lceil>f * real N\<rceil> = Inl IndexError"
    by (rule select_events_never [OF never])
  then show ?thesis
    unfolding density2d_unfold [OF ch n xe ye]
    unfolding H_def Hi_def N_def xs_def ys_def sidx_def by simp
qed

theorem density2d_unreached_target_raises_index_error_witness:
  "length [0::nat, 1] = 2 \<and>
   list_all (\<lambda>c. c < ncols \<lparr>ncols = 2, rows = [[1 / 2, 1 / 2], [1 / 2, 1 / 2], [5, 5]]\<rparr>) [0, 1] \<and>
   1 < length (rows \<lparr>ncols = 2, rows = [[1 / 2, 1 / 2], [1 / 2, 1 / 2], [5, 5]]\<rparr>) \<and>
   edges_ok [0, 1] \<and>
   bin_events [0, 1] [0, 1] [1 / 2, 1 / 2, 5] [1 / 2, 1 / 2, 5] = ([[[0, 1]]], 2) \<and>
   density_order (gaussian_filter 10) argsort_stable [[2]] = [0] \<and>
   int (sum_list (map (\<lambda>i. concat [[2]] ! i) (take (Suc 0) [0]))) < \<lceil>(3 / 2 :: real) * real (2::nat)\<rceil> \<and>
   density2d (gaussian_filter 10) argsort_stable
       \<lparr>ncols = 2, rows = [[1 / 2, 1 / 2], [1 / 2, 1 / 2], [5, 5]]\<rparr> [0, 1] [0, 1] [0, 1] (3 / 2)
     = Inl IndexError"
proof -
  let ?data = "\<lparr>ncols = 2, rows = [[1 / 2, 1 / 2], [1 / 2, 1 / 2], [5, 5 :: real]]\<rparr>"
  have c: "length [0::nat, 1] = 2" "list_all (\<lambda>c. c < ncols ?data) [0, 1]" by simp_all
  have n: "1 < length (rows ?data)" by simp
  have e: "edges_ok [0, 1]" by (simp add: edges_ok_def)
  have col: "column ?data ([0, 1] ! 0) = [1 / 2, 1 / 2, 5]"
    "column ?data ([0, 1] ! 1) = [1 / 2, 1 / 2, 5]"
    by (simp_all add: column_def)
  have ev: "bin_events [0, 1] [0, 1] [1 / 2, 1 / 2, 5] [1 / 2, 1 / 2, 5] = ([[[0, 1]]], 2)"
    by (simp add: bin_events_def bin_index_def accumulate_event_def upt_rec)
  have m: "map (map length) (fst (([[[0, 1]]], 2) :: nat list list list \<times> nat)) = [[2]]" by simp
  have ord: "density_order (gaussian_filter 10) argsort_stable [[2]] = [0]"
    by (rule eval_density_order_single) simp
  have lt: "int (sum_list (map (\<lambda>i. concat [[2]] ! i) (take (Suc 0) [0])))
            < \<lceil>(3 / 2 :: real) * real (2::nat)\<rceil>"
    by simp
  have never: "\<forall>k<length (density_order (gaussian_filter 10) argsort_stable
                 (map (map length)
                   (fst (bin_events [0, 1] [0, 1] (column ?data ([0, 1] ! 0)) (column ?data ([0, 1] ! 1)))))).
     int (sum_list (map (\<lambda>i. concat (map (map length)
                   (fst (bin_events [0, 1] [0, 1] (column ?data ([0, 1] ! 0)) (column ?data ([0, 1] ! 1))))) ! i)
        (take (Suc k) (density_order (gaussian_filter 10) argsort_stable
                 (map (map length)
                   (fst (bin_events [0, 1] [0, 1] (column ?data ([0, 1] ! 0)) (column ?data ([0, 1] ! 1)))))))))
       < \<lceil>3 / 2 * real (snd (bin_events [0, 1] [0, 1] (column ?data ([0, 1] ! 0)) (column ?data ([0, 1] ! 1))))\<rceil>"
    unfolding col ev m ord by simp
  from density2d_unreached_target_raises_index_error [OF c n e e never]
  show ?thesis using c n e ev ord lt by blast
qed

text \<open>
  C9 as stated fails: with \<open>gate_fraction = 2\<close> and two events in the single bin, the
  target 4 is never reached, and the gate fails with the plain IndexError of indexing the
  empty result of \<open>np.nonzero\<close>; there is no check and no error of its own for this
  condition.
\<close>

theorem density2d_unreached_target_counterexample:
  "density2d (gaussian_filter 10) argsort_stable \<lparr>ncols = 2, rows = [[1 / 2, 1 / 2], [1 / 2, 1 / 2]]\<rparr>
     [0, 1] [0, 1] [0, 1] 2
   = Inl IndexError"
proof -
  let ?data = "\<lparr>ncols = 2, rows = [[1 / 2, 1 / 2], [1 / 2, 1 / 2 :: real]]\<rparr>"
  have c: "length [0::nat, 1] = 2" "list_all (\<lambda>c. c < ncols ?data) [0, 1]" by simp_all
  have n: "1 < length (rows ?data)" by simp
  have e: "edges_ok [0, 1]" by (simp add: edges_ok_def)
  have col: "column ?data ([0, 1] ! 0) = [1 / 2, 1 / 2]" "column ?data ([0, 1] ! 1) = [1 / 2, 1 / 2]"
    by (simp_all add: column_def)
  have ev: "bin_events [0, 1] [0, 1] [1 / 2, 1 / 2] [1 / 2, 1 / 2] = ([[[0, 1]]], 2)"
    by (simp add: bin_events_def bin_index_def accumulate_event_def upt_rec)
  have ord: "density_order (gaussian_filter 10) argsort_stable [[Suc (Suc 0)]] = [0]"
    by (rule eval_density_order_single) simp
  have sel: "select_events [[Suc (Suc 0)]] [[[0, Suc 0]]] [0] 4 = Inl IndexError"
    by (simp add: select_events_def cumsum_def first_reaching_def)
  show ?thesis
    unfolding density2d_unfold [OF c n e e] col ev
    by (simp add: ord sel)
qed

section \<open>Properties of density2d with the target count in double precision\<close>

lemma round_half_even_of_int: "round_half_even (of_int m) = m"
  by (simp add: round_half_even_def)

lemma round_half_even_ge: "of_int m \<le> r \<Longrightarrow> m \<le> round_half_even r"
proof -
  assume "of_int m \<le> r"
  then have "m \<le> \<lfloor>r\<rfloor>" by (simp add: le_floor_iff)
  then show ?thesis by (auto simp: round_half_even_def Let_def)
qed

lemma round_half_even_le: "r \<le> of_int m \<Longrightarrow> round_half_even r \<le> m"
proof -
  assume h: "r \<le> of_int m"
  then have q: "\<lfloor>r\<rfloor> \<le> m" by (simp add: floor_le_iff)
  show ?thesis
  proof (cases "\<lfloor>r\<rfloor> = m")
    case True
    have "of_int \<lfloor>r\<rfloor> \<le> r" by simp
    with True h have "r = of_int m" by simp
    then show ?thesis by (simp add: round_half_even_of_int)
  next
    case False
    with q have "\<lfloor>r\<rfloor> + 1 \<le> m" by simp
    then show ?thesis using q by (auto simp: round_half_even_def Let_def)
  qed
qed

lemma float_ulp_pos: "0 < float_ulp x"
  by (simp add: float_ulp_def)

lemma float_ulp_ge_min: "2 powr (- 1074) \<le> float_ulp x"
  unfolding float_ulp_def by (subst powr_le_cancel_iff) simp_all

lemma float_ulp_le:
  assumes "2 powr (- 1074) \<le> x"
  shows "float_ulp x \<le> x"
proof -
  have "(0::real) < 2 powr (- 1074)" by simp
  then have x: "0 < x" using assms by (rule less_le_trans)
  have a: "\<bar>x\<bar> = x" using x by simp
  let ?e = "\<lfloor>log 2 x\<rfloor>"
  have "2 powr (of_int ?e) \<le> x"
    using floor_log_eq_powr_iff [of x 2 ?e] x by simp
  moreover have "(2::real) powr (of_int ?e - 52) \<le> 2 powr (of_int ?e)"
    by (subst powr_le_cancel_iff) simp_all
  ultimately have 1: "2 powr (of_int ?e - 52) \<le> x" by (rule order_trans [rotated])
  have 2: "2 powr (of_int (- 1022) - 52) \<le> x" using assms by simp
  show ?thesis
    unfolding float_ulp_def a
    using 1 2 by (cases "?e \<le> - 1022") (simp_all add: max_def)
qed

lemma float_round_pos:
  assumes "2 powr (- 1074) \<le> x"
  shows "0 < float_round x"
proof -
  have "(0::real) < 2 powr (- 1074)" by simp
  then have x: "0 < x" using assms by (rule less_le_trans)
  have "1 \<le> x / float_ulp x"
    using float_ulp_le [OF assms] float_ulp_pos [of x] by simp
  then have "of_int 1 \<le> \<bar>x\<bar> / float_ulp x" using x by simp
  then have "1 \<le> round_half_even (\<bar>x\<bar> / float_ulp x)" by (rule round_half_even_ge)
  then have "0 < real_of_int (round_half_even (\<bar>x\<bar> / float_ulp x))" by simp
  then show ?thesis
    unfolding float_round_def using x float_ulp_pos [of x] by simp
qed

lemma double_ge_min:
  assumes "0 < f" and "float_round f = f"
  shows "2 powr (- 1074) \<le> f"
proof -
  let ?r = "round_half_even (\<bar>f\<bar> / float_ulp f)"
  have eq: "f = of_int ?r * float_ulp f"
    using assms unfolding float_round_def by simp
  have "0 < real_of_int ?r"
    using assms(1) float_ulp_pos [of f] eq by (metis zero_less_mult_pos2)
  then have "1 \<le> real_of_int ?r" by simp
  then have "float_ulp f \<le> of_int ?r * float_ulp f"
    using float_ulp_pos [of f] by simp
  with eq float_ulp_ge_min [of f] show ?thesis by simp
qed

lemma float_ulp_inverse_power:
  assumes "0 < x" and "x < 2 ^ 53"
  shows "\<exists>k. float_ulp x = 1 / 2 ^ k"
proof -
  let ?e = "max \<lfloor>log 2 \<bar>x\<bar>\<rfloor> (- 1022)"
  have a: "\<bar>x\<bar> = x" using assms(1) by simp
  have "2 powr (of_int \<lfloor>log 2 x\<rfloor>) \<le> x"
    using floor_log_eq_powr_iff [of x 2 "\<lfloor>log 2 x\<rfloor>"] assms(1) by simp
  moreover have "x < 2 powr (of_int 52 + 1)" using assms(2) by simp
  ultimately have "2 powr (of_int \<lfloor>log 2 x\<rfloor>) < (2::real) powr (of_int 52 + 1)"
    by (rule le_less_trans)
  then have "real_of_int \<lfloor>log 2 x\<rfloor> < of_int 52 + 1" by (subst (asm) powr_less_cancel_iff) simp_all
  then have "\<lfloor>log 2 x\<rfloor> \<le> 52" by linarith
  then have le: "?e \<le> 52" unfolding a by simp
  define k where "k = nat (52 - ?e)"
  have "real_of_int ?e - 52 = - real k" unfolding k_def using le by simp
  then have "float_ulp x = 2 powr (- real k)" unfolding float_ulp_def by simp
  also have "\<dots> = 1 / 2 ^ k" by (simp add: powr_minus powr_realpow divide_inverse)
  finally show ?thesis by blast
qed

lemma real_nat_less_2_53: "N < 2 ^ 53 \<Longrightarrow> real N < 2 ^ 53"
proof -
  assume "N < 2 ^ 53"
  then have "real N < real (2 ^ 53)" by (simp only: of_nat_less_iff)
  then show ?thesis by simp
qed

lemma float_round_le_nat:
  assumes x: "0 < x" and le: "x \<le> real N" and N: "N < 2 ^ 53"
  shows "float_round x \<le> real N"
proof -
  have "x < 2 ^ 53" using le real_nat_less_2_53 [OF N] by simp
  from float_ulp_inverse_power [OF x this] obtain k where u: "float_ulp x = 1 / 2 ^ k" by blast
  define r where "r = round_half_even (\<bar>x\<bar> / float_ulp x)"
  have "\<bar>x\<bar> / float_ulp x = x * 2 ^ k" unfolding u using x by simp
  also have "\<dots> \<le> real N * 2 ^ k" using le by simp
  also have "\<dots> = of_int (int N * 2 ^ k)" by simp
  finally have "r \<le> int N * 2 ^ k"
    unfolding r_def by (rule round_half_even_le)
  then have "real_of_int r \<le> real_of_int (int N * 2 ^ k)" by (simp only: of_int_le_iff)
  also have "\<dots> = real N * 2 ^ k" by simp
  finally have "real_of_int r / 2 ^ k \<le> real N" by (simp add: pos_divide_le_eq)
  then have "real_of_int r * float_ulp x \<le> real N" unfolding u by simp
  moreover have "float_round x = real_of_int r * float_ulp x"
    unfolding float_round_def r_def using x by simp
  ultimately show ?thesis by simp
qed

lemma float_round_nat:
  assumes N: "N < 2 ^ 53"
  shows "float_round (real N) = real N"
proof (cases "N = 0")
  case True
  then show ?thesis by (simp add: float_round_def)
next
  case False
  then have x: "0 < real N" by simp
  from float_ulp_inverse_power [OF x real_nat_less_2_53 [OF N]]
  obtain k where u: "float_ulp (real N) = 1 / 2 ^ k" by blast
  define r where "r = round_half_even (\<bar>real N\<bar> / float_ulp (real N))"
  have "\<bar>real N\<bar> / float_ulp (real N) = of_int (int N * 2 ^ k)" unfolding u by simp
  then have "r = int N * 2 ^ k"
    unfolding r_def by (simp only: round_half_even_of_int)
  then have "real_of_int r = real N * 2 ^ k" by simp
  then have "real_of_int r * float_ulp (real N) = real N" unfolding u by simp
  moreover have "float_round (real N) = real_of_int r * float_ulp (real N)"
    unfolding float_round_def r_def using x by simp
  ultimately show ?thesis by simp
qed

lemma np_target_bounds:
  assumes f: "0 < f" "f \<le> 1" and dbl: "float_round f = f" and N: "0 < N" "N < 2 ^ 53"
  shows "\<exists>n. np_target f N = Inr n \<and> 1 \<le> n \<and> n \<le> int N"
proof -
  let ?p = "float_round (f * real N)"
  have Nf: "float_round (real N) = real N" by (rule float_round_nat [OF N(2)])
  have "f * 1 \<le> f * real N" using f(1) N(1) by (intro mult_left_mono) simp_all
  then have lo: "2 powr (- 1074) \<le> f * real N" using double_ge_min [OF f(1) dbl] by simp
  have "f * real N \<le> 1 * real N" using f(2) by (intro mult_right_mono) simp_all
  then have hi: "f * real N \<le> real N" by simp
  have x: "0 < f * real N" using f(1) N(1) by simp
  have p0: "0 < ?p" by (rule float_round_pos [OF lo])
  have pN: "?p \<le> real N" by (rule float_round_le_nat [OF x hi N(2)])
  have big: "real N < 2 ^ 1024"
  proof -
    have "(2::real) ^ 53 \<le> 2 ^ 1024" by (rule power_increasing) simp_all
    with real_nat_less_2_53 [OF N(2)] show ?thesis by (rule less_le_trans)
  qed
  have no: "\<not> (2 ^ 1024 \<le> \<bar>real N\<bar> \<or> 2 ^ 1024 \<le> \<bar>?p\<bar>)"
    using big p0 pN by simp
  have "np_target f N = Inr \<lceil>?p\<rceil>"
    unfolding np_target_def Let_def Nf using no by simp
  moreover have "1 \<le> \<lceil>?p\<rceil>" using p0 by linarith
  moreover have "\<lceil>?p\<rceil> \<le> int N" using pN by (simp add: ceiling_le_iff)
  ultimately show ?thesis by blast
qed

lemma float_round_eval:
  assumes "0 < x" and "2 powr (of_int e) \<le> x" and "x < 2 powr (of_int e + 1)" and "- 1022 \<le> e"
  shows "float_round x
         = of_int (round_half_even (x / 2 powr (of_int e - 52))) * 2 powr (of_int e - 52)"
proof -
  have "\<lfloor>log 2 x\<rfloor> = e"
    using floor_log_eq_powr_iff [of x 2 e] assms(1,2,3) by simp
  then have "float_ulp x = 2 powr (of_int e - 52)"
    unfolding float_ulp_def using assms(1,4) by simp
  then show ?thesis unfolding float_round_def using assms(1) by simp
qed

lemma two_powr_neg: "(2::real) powr (- real k) = 1 / 2 ^ k"
  by (simp add: powr_minus powr_realpow divide_inverse)

lemma np_target_fifth:
  "np_target (3602879701896397 / 18014398509481984) 5 = Inr 1"
proof -
  let ?x = "18014398509481985 / 18014398509481984 :: real"
  have N: "float_round (real 5) = real 5" by (rule float_round_nat) simp
  have x: "(3602879701896397 / 18014398509481984) * real 5 = ?x" by simp
  have u: "(2::real) powr (of_int 0 - 52) = 1 / 4503599627370496"
    using two_powr_neg [of 52] by simp
  have r: "round_half_even (?x / (1 / 4503599627370496)) = 4503599627370496"
    by (simp add: round_half_even_def Let_def)
  have "float_round ?x
        = of_int (round_half_even (?x / 2 powr (of_int 0 - 52))) * 2 powr (of_int 0 - 52)"
    by (rule float_round_eval) simp_all
  then have p: "float_round ?x = 1" unfolding u r by simp
  have no: "\<not> (2 ^ 1024 \<le> \<bar>real 5\<bar> \<or> 2 ^ 1024 \<le> \<bar>1::real\<bar>)" by simp
  show ?thesis
    unfolding np_target_def Let_def N x p using no by simp
qed

lemma exact_ceiling_fifth:
  "\<lceil>(3602879701896397 / 18014398509481984) * real (5::nat)\<rceil> = 2"
  by (simp add: ceiling_eq_iff)

lemma float_round_half: "float_round (1 / 2) = 1 / 2"
proof -
  have u: "(2::real) powr (of_int (- 1) - 52) = 1 / 9007199254740992"
    using two_powr_neg [of 53] by simp
  have r: "round_half_even ((1 / 2) / (1 / 9007199254740992)) = 4503599627370496"
    by (simp add: round_half_even_def Let_def)
  have h: "(2::real) powr (of_int (- 1)) = 1 / 2" using two_powr_neg [of 1] by simp
  have "float_round (1 / 2)
        = of_int (round_half_even ((1 / 2) / 2 powr (of_int (- 1) - 52))) * 2 powr (of_int (- 1) - 52)"
    by (rule float_round_eval) (simp_all add: h)
  then show ?thesis unfolding u r by simp
qed

lemma np_target_half: "np_target (1 / 2) 5 = Inr 3"
proof -
  let ?x = "5 / 2 :: real"
  have N: "float_round (real 5) = real 5" by (rule float_round_nat) simp
  have x: "(1 / 2) * real 5 = ?x" by simp
  have u: "(2::real) powr (of_int 1 - 52) = 1 / 2251799813685248"
    using two_powr_neg [of 51] by simp
  have r: "round_half_even (?x / (1 / 2251799813685248)) = 5629499534213120"
    by (simp add: round_half_even_def Let_def)
  have "float_round ?x
        = of_int (round_half_even (?x / 2 powr (of_int 1 - 52))) * 2 powr (of_int 1 - 52)"
    by (rule float_round_eval) simp_all
  then have p: "float_round ?x = 5 / 2" unfolding u r by simp
  have no: "\<not> (2 ^ 1024 \<le> \<bar>real 5\<bar> \<or> 2 ^ 1024 \<le> \<bar>5 / 2 :: real\<bar>)" by simp
  show ?thesis
    unfolding np_target_def Let_def N x p using no by (simp add: ceiling_eq_iff)
qed

lemma density2d_fp_unfold:
  assumes ch: "length channels = 2" "list_all (\<lambda>c. c < ncols data) channels"
    and n: "1 < length (rows data)" and xe: "edges_ok xe" and ye: "edges_ok ye"
  shows "density2d_fp gf argsort data channels xe ye f =
           (case np_target f (snd (bin_events xe ye (column data (channels ! 0)) (column data (channels ! 1))))
            of Inl e \<Rightarrow> Inl e
             | Inr n \<Rightarrow>
              (case select_events
                   (map (map length)
                      (fst (bin_events xe ye (column data (channels ! 0)) (column data (channels ! 1)))))
                   (fst (bin_events xe ye (column data (channels ! 0)) (column data (channels ! 1))))
                   (density_order gf argsort
                      (map (map length)
                         (fst (bin_events xe ye (column data (channels ! 0)) (column data (channels ! 1))))))
                   n
               of Inl e \<Rightarrow> Inl e
                | Inr m \<Rightarrow> (case index_rows data m of
                           Inl e \<Rightarrow> Inl e
                         | Inr gated \<Rightarrow> Inr \<lparr>gated_data = gated, mask = m\<rparr>)))"
proof -
  let ?xs = "column data (channels ! 0)" and ?ys = "column data (channels ! 1)"
  from index_columns_two [OF ch] obtain data_ch where
    ic: "index_columns data channels = Inr data_ch" and l: "length data_ch = length (rows data)"
    and x: "map (\<lambda>r. r ! 0) data_ch = ?xs" and y: "map (\<lambda>r. r ! 1) data_ch = ?ys"
    by blast
  have len: "length ?xs = length ?ys" by (simp add: length_column)
  have h: "histogram2d ?xs ?ys xe ye = Inr (map (map length) (fst (bin_events xe ye ?xs ?ys)))"
    by (rule histogram2d_bin_events [OF xe ye len])
  show ?thesis
    unfolding density2d_fp_def Let_def ic sum.case x y h
    using ch(1) n l by simp
qed

lemma density2d_fp_success:
  fixes data channels xe ye f gf argsort n
  defines "xs \<equiv> column data (channels ! 0)" and "ys \<equiv> column data (channels ! 1)"
  defines "Hi \<equiv> fst (bin_events xe ye xs ys)" and "N \<equiv> snd (bin_events xe ye xs ys)"
  defines "H \<equiv> map (map length) Hi"
  assumes ch: "length channels = 2" "list_all (\<lambda>c. c < ncols data) channels"
    and n: "1 < length (rows data)" and xe: "edges_ok xe" and ye: "edges_ok ye"
    and as: "argsort_ok argsort" and gf: "keeps_shape gf"
    and tgt: "np_target f N = Inr n" and n1: "1 \<le> n" and nN: "n \<le> int N"
  shows "\<exists>m. select_events H Hi (density_order gf argsort H) n = Inr m \<and> m \<noteq> [] \<and>
           density2d_fp gf argsort data channels xe ye f
             = Inr \<lparr>gated_data = map (\<lambda>i. rows data ! i) m, mask = m\<rparr>"
proof -
  have len: "length xs = length ys" unfolding xs_def ys_def by (simp add: length_column)
  have cells: "map length (concat Hi) = concat H" unfolding H_def by (rule cells_bin_events)
  have perm: "mset (density_order gf argsort H) = mset [0..<length (concat H)]"
    by (rule density_order_perm [OF as gf])
  have ne: "concat H \<noteq> []"
    unfolding H_def Hi_def by (rule concat_histogram_nonempty [OF xe ye len])
  have sum: "sum_list (concat H) = N"
    unfolding H_def Hi_def N_def by (rule bin_events_count [OF xe ye len])
  have nle: "n \<le> int (sum_list (concat H))" unfolding sum by (rule nN)
  from select_events_exists [OF perm ne nle, of Hi] obtain m where
    m: "select_events H Hi (density_order gf argsort H) n = Inr m" by blast
  from select_events_Inr [OF cells perm m] obtain k where
    "length m = sum_list (map (\<lambda>i. concat H ! i) (take (Suc k) (density_order gf argsort H)))"
    "n \<le> int (sum_list (map (\<lambda>i. concat H ! i) (take (Suc k) (density_order gf argsort H))))"
    by blast
  then have "1 \<le> int (length m)" using n1 by linarith
  then have mne: "m \<noteq> []" by auto
  have t: "np_target f (snd (bin_events xe ye (column data (channels ! 0)) (column data (channels ! 1))))
           = Inr n"
    using tgt unfolding N_def xs_def ys_def .
  have "density2d_fp gf argsort data channels xe ye f
        = Inr \<lparr>gated_data = map (\<lambda>i. rows data ! i) m, mask = m\<rparr>"
    unfolding density2d_fp_unfold [OF ch n xe ye] t
    using m mne unfolding H_def Hi_def xs_def ys_def by (simp add: index_rows_def)
  with m mne show ?thesis by blast
qed

text \<open>
  C3 (as amended).  On a valid input with \<open>N\<close> events within the edges,
  \<open>0 < N < 2^53\<close>, and a fraction \<open>f\<close> that is a double in \<open>(0, 1]\<close>, the gate
  returns, and the rows it retains are exactly the events of the index lists of the bins
  \<open>sidx[0..k]\<close>, where \<open>sidx\<close> lists all bins by descending smoothed density and \<open>k\<close>
  is the first rank at which the running sum of the raw counts reaches the target \<open>n\<close>:
  the smallest such prefix.  The target is the one line 275 computes, the ceiling of the
  product \<open>f * N\<close> rounded to a double; it lies between 1 and \<open>N\<close>.
\<close>

theorem density2d_fp_retains_smallest_prefix:
  fixes data channels xe ye f gf argsort
  defines "xs \<equiv> column data (channels ! 0)" and "ys \<equiv> column data (channels ! 1)"
  defines "Hi \<equiv> fst (bin_events xe ye xs ys)" and "N \<equiv> snd (bin_events xe ye xs ys)"
  defines "H \<equiv> map (map length) Hi"
  defines "sidx \<equiv> density_order gf argsort H"
  defines "vD \<equiv> concat (density_field (gf (map (map real) H)))"
  assumes ch: "length channels = 2" "list_all (\<lambda>c. c < ncols data) channels"
    and n: "1 < length (rows data)" and xe: "edges_ok xe" and ye: "edges_ok ye"
    and as: "argsort_ok argsort" and gf: "keeps_shape gf"
    and f: "0 < f" "f \<le> 1" and dbl: "float_round f = f" and N: "0 < N" "N < 2 ^ 53"
  shows "\<exists>out k n. np_target f N = Inr n \<and> 1 \<le> n \<and> n \<le> int N \<and>
           density2d_fp gf argsort data channels xe ye f = Inr out \<and>
           histogram2d xs ys xe ye = Inr H \<and>
           mset sidx = mset [0..<length (concat H)] \<and>
           sorted_wrt (\<lambda>i j. np_le (vD ! j) (vD ! i)) sidx \<and>
           k < length sidx \<and>
           set (mask out) = (\<Union>b\<in>set (take (Suc k) sidx). set (concat Hi ! b)) \<and>
           length (mask out) = sum_list (map (\<lambda>i. concat H ! i) (take (Suc k) sidx)) \<and>
           n \<le> int (sum_list (map (\<lambda>i. concat H ! i) (take (Suc k) sidx))) \<and>
           (\<forall>j<k. int (sum_list (map (\<lambda>i. concat H ! i) (take (Suc j) sidx))) < n)"
proof -
  have len: "length xs = length ys" unfolding xs_def ys_def by (simp add: length_column)
  have cells: "map length (concat Hi) = concat H" unfolding H_def by (rule cells_bin_events)
  have perm: "mset sidx = mset [0..<length (concat H)]"
    unfolding sidx_def by (rule density_order_perm [OF as gf])
  have srt: "sorted_wrt (\<lambda>i j. np_le (vD ! j) (vD ! i)) sidx"
    unfolding sidx_def vD_def by (rule density_order_sorted [OF as])
  have hist: "histogram2d xs ys xe ye = Inr H"
    unfolding H_def Hi_def by (rule histogram2d_bin_events [OF xe ye len])
  from np_target_bounds [OF f dbl N] obtain n' where
    tgt: "np_target f N = Inr n'" and n1: "1 \<le> n'" and nN: "n' \<le> int N" by blast
  have tgt': "np_target f (snd (bin_events xe ye (column data (channels ! 0))
                                 (column data (channels ! 1)))) = Inr n'"
    using tgt unfolding N_def xs_def ys_def .
  have nN': "n' \<le> int (snd (bin_events xe ye (column data (channels ! 0))
                                 (column data (channels ! 1))))"
    using nN unfolding N_def xs_def ys_def .
  from density2d_fp_success [OF ch n xe ye as gf tgt' n1 nN']
  obtain m where m: "select_events H Hi sidx n' = Inr m"
    and d: "density2d_fp gf argsort data channels xe ye f
            = Inr \<lparr>gated_data = map (\<lambda>i. rows data ! i) m, mask = m\<rparr>"
    unfolding H_def Hi_def xs_def ys_def sidx_def by blast
  from select_events_Inr [OF cells perm m] obtain k where
    k: "k < length sidx"
    and mk: "m = sort (concat (map (\<lambda>i. concat Hi ! i) (take (Suc k) sidx)))"
    and lm: "length m = sum_list (map (\<lambda>i. concat H ! i) (take (Suc k) sidx))"
    and reach: "n' \<le> int (sum_list (map (\<lambda>i. concat H ! i) (take (Suc k) sidx)))"
    and before: "\<forall>j<k. int (sum_list (map (\<lambda>i. concat H ! i) (take (Suc j) sidx))) < n'"
    by blast
  have sm: "set m = (\<Union>b\<in>set (take (Suc k) sidx). set (concat Hi ! b))"
    unfolding mk by (rule set_sort_concat_take)
  let ?out = "\<lparr>gated_data = map (\<lambda>i. rows data ! i) m, mask = m\<rparr>"
  have "set (mask ?out) = (\<Union>b\<in>set (take (Suc k) sidx). set (concat Hi ! b))"
    and "length (mask ?out) = sum_list (map (\<lambda>i. concat H ! i) (take (Suc k) sidx))"
    using sm lm by simp_all
  with tgt n1 nN d hist perm srt k reach before show ?thesis by blast
qed

lemma sum_list_ones:
  assumes "\<forall>i\<in>set is. i < length v" and "\<forall>x\<in>set v. x = (1::nat)"
  shows "sum_list (map (\<lambda>i. v ! i) is) = length is"
  using assms(1)
proof (induction "is")
  case Nil
  then show ?case by simp
next
  case (Cons i "is")
  then have "v ! i \<in> set v" by simp
  then have "v ! i = 1" using assms(2) by blast
  then show ?case using Cons by simp
qed

lemma prefix_ones:
  assumes perm: "mset sidx = mset [0..<length v]" and ones: "\<forall>x\<in>set v. x = (1::nat)"
    and j: "j < length sidx"
  shows "sum_list (map (\<lambda>i. v ! i) (take (Suc j) sidx)) = Suc j"
proof -
  have "\<forall>i\<in>set (take (Suc j) sidx). i < length v"
    using perm_upt_bounds(2) [OF perm] by (meson in_set_takeD)
  from sum_list_ones [OF this ones] show ?thesis using j by simp
qed

lemma first_prefix_ones:
  assumes perm: "mset sidx = mset [0..<length v]" and ones: "\<forall>x\<in>set v. x = (1::nat)"
    and k: "k < length sidx"
    and reach: "n \<le> int (sum_list (map (\<lambda>i. v ! i) (take (Suc k) sidx)))"
    and before: "\<forall>j<k. int (sum_list (map (\<lambda>i. v ! i) (take (Suc j) sidx))) < n"
    and n1: "1 \<le> n"
  shows "sum_list (map (\<lambda>i. v ! i) (take (Suc k) sidx)) = nat n"
proof -
  have pk: "sum_list (map (\<lambda>i. v ! i) (take (Suc k) sidx)) = Suc k"
    by (rule prefix_ones [OF perm ones k])
  have r: "n \<le> int (Suc k)" using reach unfolding pk .
  have "int k < n"
  proof (cases "k = 0")
    case True
    then show ?thesis using n1 by simp
  next
    case False
    then have k': "k - 1 < k" "k - 1 < length sidx" using k by simp_all
    have "sum_list (map (\<lambda>i. v ! i) (take (Suc (k - 1)) sidx)) = Suc (k - 1)"
      by (rule prefix_ones [OF perm ones k'(2)])
    moreover have "int (sum_list (map (\<lambda>i. v ! i) (take (Suc (k - 1)) sidx))) < n"
      using before k'(1) by blast
    ultimately have "int (Suc (k - 1)) < n" by simp
    then show ?thesis using False by simp
  qed
  with r have "nat n = Suc k" by linarith
  then show ?thesis unfolding pk by simp
qed

lemma eval_five_bins:
  "bin_events [0, 1, 2, 3, 4, 5] [0, 1] [1 / 2, 3 / 2, 5 / 2, 7 / 2, 9 / 2]
     [1 / 2, 1 / 2, 1 / 2, 1 / 2, 1 / 2]
   = ([[[0]], [[1]], [[2]], [[3]], [[4]]], 5)"
  by (simp add: bin_events_def bin_index_def accumulate_event_def upt_rec)

theorem density2d_fp_retains_smallest_prefix_witness:
  "length [0::nat, 1] = 2 \<and>
   list_all (\<lambda>c. c < ncols \<lparr>ncols = 2, rows = [[1 / 2, 1 / 2], [3 / 2, 1 / 2], [5 / 2, 1 / 2],
                                               [7 / 2, 1 / 2], [9 / 2, 1 / 2]]\<rparr>) [0, 1] \<and>
   1 < length (rows \<lparr>ncols = 2, rows = [[1 / 2, 1 / 2], [3 / 2, 1 / 2], [5 / 2, 1 / 2],
                                          [7 / 2, 1 / 2], [9 / 2, 1 / 2]]\<rparr>) \<and>
   edges_ok [0, 1, 2, 3, 4, 5] \<and> edges_ok [0, 1] \<and>
   argsort_ok argsort_stable \<and> keeps_shape (gaussian_filter 10) \<and>
   (0::real) < 1 / 2 \<and> (1 / 2 :: real) \<le> 1 \<and> float_round (1 / 2) = 1 / 2 \<and>
   snd (bin_events [0, 1, 2, 3, 4, 5] [0, 1] [1 / 2, 3 / 2, 5 / 2, 7 / 2, 9 / 2]
          [1 / 2, 1 / 2, 1 / 2, 1 / 2, 1 / 2]) = 5 \<and>
   np_target (1 / 2) 5 = Inr 3 \<and>
   (\<exists>out. density2d_fp (gaussian_filter 10) argsort_stable
             \<lparr>ncols = 2, rows = [[1 / 2, 1 / 2], [3 / 2, 1 / 2], [5 / 2, 1 / 2],
                                  [7 / 2, 1 / 2], [9 / 2, 1 / 2]]\<rparr>
             [0, 1] [0, 1, 2, 3, 4, 5] [0, 1] (1 / 2) = Inr out \<and>
          length (mask out) = 3)"
proof -
  let ?data = "\<lparr>ncols = 2, rows = [[1 / 2, 1 / 2], [3 / 2, 1 / 2], [5 / 2, 1 / 2],
                                   [7 / 2, 1 / 2], [9 / 2, 1 / 2 :: real]]\<rparr>"
  let ?xe = "[0, 1, 2, 3, 4, 5 :: real]" and ?ye = "[0, 1 :: real]"
  let ?H = "[[1], [1], [1], [1], [1 :: nat]]"
  let ?sidx = "density_order (gaussian_filter 10) argsort_stable ?H"
  have c: "length [0::nat, 1] = 2" "list_all (\<lambda>c. c < ncols ?data) [0, 1]" by simp_all
  have n: "1 < length (rows ?data)" by simp
  have ex: "edges_ok ?xe" and ey: "edges_ok ?ye" by (simp_all add: edges_ok_def)
  have f: "(0::real) < 1 / 2" "(1 / 2 :: real) \<le> 1" by simp_all
  have col: "column ?data ([0, 1] ! 0) = [1 / 2, 3 / 2, 5 / 2, 7 / 2, 9 / 2]"
    "column ?data ([0, 1] ! 1) = [1 / 2, 1 / 2, 1 / 2, 1 / 2, 1 / 2]"
    by (simp_all add: column_def)
  have m: "map (map length) [[[0]], [[1]], [[2]], [[3]], [[4 :: nat]]] = ?H" by simp
  have N: "0 < snd (bin_events ?xe ?ye (column ?data ([0, 1] ! 0)) (column ?data ([0, 1] ! 1)))"
    "snd (bin_events ?xe ?ye (column ?data ([0, 1] ! 0)) (column ?data ([0, 1] ! 1))) < 2 ^ 53"
    unfolding col eval_five_bins by simp_all
  have perm: "mset ?sidx = mset [0..<length (concat ?H)]"
    by (rule density_order_perm [OF argsort_ok_argsort_stable keeps_shape_gaussian_filter])
  have ones: "\<forall>x\<in>set (concat ?H). x = 1" by simp
  from density2d_fp_retains_smallest_prefix
         [OF c n ex ey argsort_ok_argsort_stable keeps_shape_gaussian_filter [of 10] f
             float_round_half N]
  have "\<exists>out k n. np_target (1 / 2) 5 = Inr n \<and> 1 \<le> n \<and>
          density2d_fp (gaussian_filter 10) argsort_stable ?data [0, 1] ?xe ?ye (1 / 2) = Inr out \<and>
          k < length ?sidx \<and>
          length (mask out) = sum_list (map (\<lambda>i. concat ?H ! i) (take (Suc k) ?sidx)) \<and>
          n \<le> int (sum_list (map (\<lambda>i. concat ?H ! i) (take (Suc k) ?sidx))) \<and>
          (\<forall>j<k. int (sum_list (map (\<lambda>i. concat ?H ! i) (take (Suc j) ?sidx))) < n)"
    unfolding col eval_five_bins fst_conv snd_conv m
    by (elim exE conjE) (rule exI, rule exI, rule exI, intro conjI; assumption)
  then obtain out k n' where
    t: "np_target (1 / 2) 5 = Inr n'" and n1: "1 \<le> n'"
    and d: "density2d_fp (gaussian_filter 10) argsort_stable ?data [0, 1] ?xe ?ye (1 / 2) = Inr out"
    and k: "k < length ?sidx"
    and l: "length (mask out) = sum_list (map (\<lambda>i. concat ?H ! i) (take (Suc k) ?sidx))"
    and reach: "n' \<le> int (sum_list (map (\<lambda>i. concat ?H ! i) (take (Suc k) ?sidx)))"
    and before: "\<forall>j<k. int (sum_list (map (\<lambda>i. concat ?H ! i) (take (Suc j) ?sidx))) < n'"
    by (elim exE conjE)
  have n3: "n' = 3" using t unfolding np_target_half by simp
  have "length (mask out) = nat n'"
    unfolding l by (rule first_prefix_ones [OF perm ones k reach before n1])
  then have "length (mask out) = 3" unfolding n3 by simp
  with d have "\<exists>out. density2d_fp (gaussian_filter 10) argsort_stable ?data [0, 1] ?xe ?ye (1 / 2)
                  = Inr out \<and> length (mask out) = 3"
    by (intro exI conjI)
  moreover have "snd (bin_events ?xe ?ye [1 / 2, 3 / 2, 5 / 2, 7 / 2, 9 / 2]
                        [1 / 2, 1 / 2, 1 / 2, 1 / 2, 1 / 2]) = 5"
    unfolding eval_five_bins by simp
  ultimately show ?thesis
    using c n ex ey f argsort_ok_argsort_stable keeps_shape_gaussian_filter [of 10]
      float_round_half np_target_half
    by (intro conjI)
qed

text \<open>
  C3 as stated fails, since the target is not always \<open>ceil(f * N)\<close>.  For the double
  that \<open>0.2\<close> denotes and five events in five different bins, the exact product is just
  above 1 and its ceiling is 2, but the product rounds to the double 1.0 and the code
  takes the target 1: the gate retains one row, where every prefix whose raw counts reach
  2 holds two.
\<close>

theorem density2d_fp_target_counterexample:
  "np_target (3602879701896397 / 18014398509481984) 5 = Inr 1 \<and>
   \<lceil>(3602879701896397 / 18014398509481984) * real (5::nat)\<rceil> = 2 \<and>
   histogram2d [1 / 2, 3 / 2, 5 / 2, 7 / 2, 9 / 2] [1 / 2, 1 / 2, 1 / 2, 1 / 2, 1 / 2]
     [0, 1, 2, 3, 4, 5] [0, 1] = Inr [[1], [1], [1], [1], [1]] \<and>
   retained_count
     (density2d_fp (gaussian_filter 10) argsort_stable
        \<lparr>ncols = 2, rows = [[1 / 2, 1 / 2], [3 / 2, 1 / 2], [5 / 2, 1 / 2],
                             [7 / 2, 1 / 2], [9 / 2, 1 / 2]]\<rparr>
        [0, 1] [0, 1, 2, 3, 4, 5] [0, 1] (3602879701896397 / 18014398509481984))
   = Inr 1"
proof -
  let ?data = "\<lparr>ncols = 2, rows = [[1 / 2, 1 / 2], [3 / 2, 1 / 2], [5 / 2, 1 / 2],
                                   [7 / 2, 1 / 2], [9 / 2, 1 / 2 :: real]]\<rparr>"
  let ?xe = "[0, 1, 2, 3, 4, 5 :: real]" and ?ye = "[0, 1 :: real]"
  let ?xs = "[1 / 2, 3 / 2, 5 / 2, 7 / 2, 9 / 2 :: real]"
  let ?ys = "[1 / 2, 1 / 2, 1 / 2, 1 / 2, 1 / 2 :: real]"
  let ?Hi = "[[[0]], [[1]], [[2]], [[3]], [[4 :: nat]]]"
  let ?H = "[[1], [1], [1], [1], [1 :: nat]]"
  let ?f = "3602879701896397 / 18014398509481984 :: real"
  let ?sidx = "density_order (gaussian_filter 10) argsort_stable ?H"
  have c: "length [0::nat, 1] = 2" "list_all (\<lambda>c. c < ncols ?data) [0, 1]" by simp_all
  have n: "1 < length (rows ?data)" by simp
  have ex: "edges_ok ?xe" and ey: "edges_ok ?ye" by (simp_all add: edges_ok_def)
  have col: "column ?data ([0, 1] ! 0) = ?xs" "column ?data ([0, 1] ! 1) = ?ys"
    by (simp_all add: column_def)
  have m: "map (map length) ?Hi = ?H" by simp
  have len: "length ?xs = length ?ys" by simp
  have hist: "histogram2d ?xs ?ys ?xe ?ye = Inr ?H"
    unfolding histogram2d_bin_events [OF ex ey len] eval_five_bins fst_conv m ..
  have tgt: "np_target ?f (snd (bin_events ?xe ?ye (column ?data ([0, 1] ! 0))
                                  (column ?data ([0, 1] ! 1)))) = Inr 1"
    unfolding col eval_five_bins snd_conv by (rule np_target_fifth)
  have nN: "(1::int) \<le> int (snd (bin_events ?xe ?ye (column ?data ([0, 1] ! 0))
                                  (column ?data ([0, 1] ! 1))))"
    unfolding col eval_five_bins by simp
  have perm: "mset ?sidx = mset [0..<length (concat ?H)]"
    by (rule density_order_perm [OF argsort_ok_argsort_stable keeps_shape_gaussian_filter])
  have cells: "map length (concat ?Hi) = concat ?H" by simp
  have ones: "\<forall>x\<in>set (concat ?H). x = 1" by simp
  from density2d_fp_success
         [OF c n ex ey argsort_ok_argsort_stable keeps_shape_gaussian_filter [of 10] tgt order_refl nN]
  have "\<exists>mm. select_events ?H ?Hi ?sidx 1 = Inr mm \<and>
          density2d_fp (gaussian_filter 10) argsort_stable ?data [0, 1] ?xe ?ye ?f
            = Inr \<lparr>gated_data = map (\<lambda>i. rows ?data ! i) mm, mask = mm\<rparr>"
    unfolding col eval_five_bins fst_conv snd_conv m
    by (elim exE conjE) (rule exI, intro conjI; assumption)
  then obtain mm where
    sel: "select_events ?H ?Hi ?sidx 1 = Inr mm"
    and d: "density2d_fp (gaussian_filter 10) argsort_stable ?data [0, 1] ?xe ?ye ?f
            = Inr \<lparr>gated_data = map (\<lambda>i. rows ?data ! i) mm, mask = mm\<rparr>"
    by (elim exE conjE)
  from select_events_Inr [OF cells perm sel] obtain k where
    k: "k < length ?sidx"
    and l: "length mm = sum_list (map (\<lambda>i. concat ?H ! i) (take (Suc k) ?sidx))"
    and reach: "1 \<le> int (sum_list (map (\<lambda>i. concat ?H ! i) (take (Suc k) ?sidx)))"
    and before: "\<forall>j<k. int (sum_list (map (\<lambda>i. concat ?H ! i) (take (Suc j) ?sidx))) < 1"
    by blast
  have "length mm = nat 1"
    unfolding l by (rule first_prefix_ones [OF perm ones k reach before order_refl])
  then have "retained_count
               (density2d_fp (gaussian_filter 10) argsort_stable ?data [0, 1] ?xe ?ye ?f) = Inr 1"
    unfolding d retained_count_def by simp
  with np_target_fifth exact_ceiling_fifth hist show ?thesis by (intro conjI)
qed

end
